theory Spec2Isabelle
  imports Main
begin

section \<open>The regular expression \<open>quote_pattern\<close>\<close>

text \<open>
  The script scans the text of \<open>src/quotes.rs\<close> with one compiled regular expression.
  A character of the text is a \<open>char\<close>, read as a code point below 256; the classes
  \<open>\s\<close> and \<open>\w\<close> are the ones Python's \<open>re\<close> uses for \<open>str\<close> patterns on that range.
\<close>

definition is_space :: "char \<Rightarrow> bool" where
  "is_space c =
     (let n = (of_char c :: nat)
      in (9 \<le> n \<and> n \<le> 13) \<or> (28 \<le> n \<and> n \<le> 32) \<or> n = 133 \<or> n = 160)"

definition is_word :: "char \<Rightarrow> bool" where
  "is_word c =
     (let n = (of_char c :: nat)
      in (48 \<le> n \<and> n \<le> 57) \<or> (65 \<le> n \<and> n \<le> 90) \<or> n = 95 \<or> (97 \<le> n \<and> n \<le> 122)
         \<or> n = 170 \<or> n = 178 \<or> n = 179 \<or> n = 181 \<or> n = 185 \<or> n = 186
         \<or> (188 \<le> n \<and> n \<le> 190) \<or> (192 \<le> n \<and> n \<le> 214)
         \<or> (216 \<le> n \<and> n \<le> 246) \<or> (248 \<le> n \<and> n \<le> 255))"

text \<open>The double quote, the field delimiter of the pattern.\<close>

definition dquote :: char where
  "dquote = CHR 0x22"

text \<open>
  A character class: \<open>\s\<close>, \<open>\w\<close>, or a negated single character such as \<open>[^"]\<close>.
\<close>

datatype cls = Space | Word | NotChr char

fun in_cls :: "cls \<Rightarrow> char \<Rightarrow> bool" where
  "in_cls Space c = is_space c"
| "in_cls Word c = is_word c"
| "in_cls (NotChr d) c = (c \<noteq> d)"

text \<open>
  The pieces \<open>quote_pattern\<close> is made of: a literal character, the dot (any character but
  a newline), a greedy \<open>k*\<close> or \<open>k+\<close> over a class, and the same two inside a capturing
  group, \<open>(k*)\<close> and \<open>(k+)\<close>.
\<close>

datatype atom = Chr char | Dot | Star cls | Plus cls | GroupStar cls | GroupPlus cls

definition lit :: "string \<Rightarrow> atom list" where
  "lit s = map Chr s"

definition quote_pattern :: "atom list" where
  "quote_pattern =
     lit ''Quote'' @ [Star Space, Chr CHR ''{'', Star Space] @
     lit ''text:'' @ [Star Space, Chr dquote, GroupStar (NotChr dquote), Chr dquote, Dot] @
       lit ''to_string(),'' @ [Star Space] @
     lit ''source:'' @ [Star Space, Chr dquote, GroupStar (NotChr dquote), Chr dquote, Dot] @
       lit ''to_string(),'' @ [Star Space] @
     lit ''difficulty:'' @ [Star Space] @ lit ''QuoteDifficulty::'' @
       [GroupPlus Word, Chr CHR '','', Star Space] @
     lit ''category:'' @ [Star Space] @ lit ''QuoteCategory::'' @
       [GroupPlus Word, Chr CHR '','', Star Space] @
     lit ''origin:'' @ [Star Space, Chr dquote, GroupStar (NotChr dquote), Chr dquote, Dot] @
       lit ''to_string(),'' @ [Star Space] @
     [Chr CHR ''}'']"

text \<open>
  Matching at the start of a string, as the backtracking engine of \<open>re\<close> does: a greedy
  repetition first takes one more character of its class and, when the rest of the
  pattern then fails, gives it back. The result is the list of captured groups, in the
  order of their opening parentheses, and the text left after the match.
\<close>

fun open_group :: "(string list \<times> string) option \<Rightarrow> (string list \<times> string) option" where
  "open_group None = None"
| "open_group (Some (gs, rest)) = Some ([] # gs, rest)"

fun extend_group :: "char \<Rightarrow> (string list \<times> string) option \<Rightarrow> (string list \<times> string) option" where
  "extend_group x None = None"
| "extend_group x (Some ([], rest)) = Some ([[x]], rest)"
| "extend_group x (Some (g # gs, rest)) = Some ((x # g) # gs, rest)"

fun rmatch :: "atom list \<Rightarrow> string \<Rightarrow> (string list \<times> string) option" where
  "rmatch [] s = Some ([], s)"
| "rmatch (Chr c # p) [] = None"
| "rmatch (Chr c # p) (x # xs) = (if x = c then rmatch p xs else None)"
| "rmatch (Dot # p) [] = None"
| "rmatch (Dot # p) (x # xs) = (if x \<noteq> CHR 0x0A then rmatch p xs else None)"
| "rmatch (Star k # p) [] = rmatch p []"
| "rmatch (Star k # p) (x # xs) =
     (if in_cls k x
      then (case rmatch (Star k # p) xs of
              Some r \<Rightarrow> Some r
            | None \<Rightarrow> rmatch p (x # xs))
      else rmatch p (x # xs))"
| "rmatch (Plus k # p) [] = None"
| "rmatch (Plus k # p) (x # xs) = (if in_cls k x then rmatch (Star k # p) xs else None)"
| "rmatch (GroupStar k # p) [] = open_group (rmatch p [])"
| "rmatch (GroupStar k # p) (x # xs) =
     (if in_cls k x
      then (case rmatch (GroupStar k # p) xs of
              Some r \<Rightarrow> extend_group x (Some r)
            | None \<Rightarrow> open_group (rmatch p (x # xs)))
      else open_group (rmatch p (x # xs)))"
| "rmatch (GroupPlus k # p) [] = None"
| "rmatch (GroupPlus k # p) (x # xs) =
     (if in_cls k x then extend_group x (rmatch (GroupStar k # p) xs) else None)"


text \<open>
  What a match leaves over is a suffix of the text it started on; this is what makes the
  scan below terminate.
\<close>

lemma open_group_Some:
  "open_group r = Some (gs, rest) \<Longrightarrow> \<exists>gs'. r = Some (gs', rest) \<and> gs = [] # gs'"
  by (cases r rule: open_group.cases) auto

lemma extend_group_Some:
  "extend_group x r = Some (gs, rest) \<Longrightarrow> \<exists>gs'. r = Some (gs', rest)"
  by (cases "(x, r)" rule: extend_group.cases) auto

lemma rmatch_suffix:
  "rmatch p s = Some (gs, rest) \<Longrightarrow> \<exists>pre. s = pre @ rest"
proof (induction p s arbitrary: gs rule: rmatch.induct)
  case (1 s)
  then show ?case by simp
next
  case (3 c p x xs)
  then obtain pre where "xs = pre @ rest" by (auto split: if_splits)
  then have "x # xs = (x # pre) @ rest" by simp
  then show ?case by blast
next
  case (5 p x xs)
  then obtain pre where "xs = pre @ rest" by (auto split: if_splits)
  then have "x # xs = (x # pre) @ rest" by simp
  then show ?case by blast
next
  case (6 k p)
  then show ?case by simp
next
  case (7 k p x xs)
  show ?case
  proof (cases "in_cls k x \<and> rmatch (Star k # p) xs \<noteq> None")
    case True
    with 7 obtain pre where "xs = pre @ rest" by (auto split: option.splits)
    then have "x # xs = (x # pre) @ rest" by simp
    then show ?thesis by blast
  next
    case False
    with 7 show ?thesis by (auto split: if_splits option.splits)
  qed
next
  case (9 k p x xs)
  then obtain pre where "xs = pre @ rest" by (auto split: if_splits)
  then have "x # xs = (x # pre) @ rest" by simp
  then show ?case by blast
next
  case (10 k p)
  then show ?case by (auto dest!: open_group_Some)
next
  case (11 k p x xs)
  show ?case
  proof (cases "in_cls k x \<and> rmatch (GroupStar k # p) xs \<noteq> None")
    case True
    with 11 obtain pre where "xs = pre @ rest"
      by (auto split: option.splits dest!: extend_group_Some)
    then have "x # xs = (x # pre) @ rest" by simp
    then show ?thesis by blast
  next
    case False
    with 11 show ?thesis by (auto split: if_splits option.splits dest!: open_group_Some)
  qed
next
  case (13 k p x xs)
  then obtain pre where "xs = pre @ rest"
    by (auto split: if_splits dest!: extend_group_Some)
  then have "x # xs = (x # pre) @ rest" by simp
  then show ?case by blast
qed simp_all

lemma quote_pattern_Cons: "\<exists>p. quote_pattern = Chr CHR ''Q'' # p"
  by (simp add: quote_pattern_def lit_def)

lemma rmatch_quote_pattern_shorter:
  assumes "rmatch quote_pattern s = Some (gs, rest)"
  shows "length rest < length s"
proof -
  obtain p where p: "quote_pattern = Chr CHR ''Q'' # p"
    using quote_pattern_Cons by blast
  have "rmatch (Chr CHR ''Q'' # p) s = Some (gs, rest)"
    using assms unfolding p .
  then obtain xs where s: "s = CHR ''Q'' # xs" and m: "rmatch p xs = Some (gs, rest)"
    by (cases s) (auto split: if_splits)
  from rmatch_suffix [OF m] obtain pre where "xs = pre @ rest" by blast
  with s show ?thesis by simp
qed

text \<open>
  \<open>quote_pattern.findall(content)\<close>: the matches are looked for from left to right; after
  a match the scan goes on where the match ended, after a failure one character further.
  Every match yields the list of its groups. The pattern matches no empty text, so
  nothing is found at the end of the text.
\<close>

function findall :: "string \<Rightarrow> string list list" where
  "findall [] = []"
| "findall (x # xs) =
     (case rmatch quote_pattern (x # xs) of
        Some (gs, rest) \<Rightarrow> gs # findall rest
      | None \<Rightarrow> findall xs)"
  by pat_completeness auto
termination
proof (relation "measure length")
  fix x xs x2 gs rest
  assume "rmatch quote_pattern (x # xs) = Some x2" and "(gs, rest) = x2"
  then have "rmatch quote_pattern (x # xs) = Some (gs, rest)" by simp
  from rmatch_quote_pattern_shorter [OF this]
  show "(rest, x # xs) \<in> measure length" by simp
qed simp_all


section \<open>Records, files and the state of a run\<close>

text \<open>
  A quote is the dictionary the loop of \<open>extract_quotes_from_file\<close> builds, with its five
  keys \<open>text\<close>, \<open>source\<close>, \<open>difficulty\<close>, \<open>category\<close> and \<open>origin\<close>.
\<close>

record quote =
  quote_text :: string
  quote_source :: string
  quote_difficulty :: string
  quote_category :: string
  quote_origin :: string

text \<open>
  The files under \<open>quotes/categories\<close> are kept as \<open>json.load\<close> reads them: a list of
  quotes, or content on which \<open>json.load\<close> raises.
\<close>

datatype stored = Quotes "quote list" | Invalid_json

datatype error = FileNotFoundError | ValueError | KeyError | JSONDecodeError

text \<open>The lines the script prints, one constructor for each \<open>print\<close> of the source.\<close>

datatype msg =
    Parsing string
  | Found nat
  | Unknown_category string
  | No_quotes_found string
  | No_new_quotes string
  | Adding nat nat string
  | Creating nat string
  | Saved nat string
  | Complete

text \<open>
  The module-level dictionary \<open>quotes_by_category\<close>, the text files \<open>open(...).read()\<close>
  returns, the JSON files by path, the standard output, and the paths opened for writing
  so far, one entry for each \<open>open(filepath, 'w')\<close>, in order.
\<close>

record state =
  quotes_by_category :: "string \<rightharpoonup> quote list"
  source_files :: "string \<rightharpoonup> string"
  json_files :: "string \<rightharpoonup> stored"
  stdout :: "msg list"
  writes :: "string list"

text \<open>An exception ends the run in the state reached so far.\<close>

type_synonym outcome = "error \<times> state + state"

definition print :: "msg \<Rightarrow> state \<Rightarrow> state" where
  "print m st = st\<lparr>stdout := stdout st @ [m]\<rparr>"

definition categories :: "(string \<times> string) list" where
  "categories =
     [(''Proverbs'', ''proverbs.json''),
      (''TongueTwisters'', ''tongue_twisters.json''),
      (''Literature'', ''literature.json''),
      (''Programming'', ''programming.json''),
      (''Humor'', ''humor.json''),
      (''Multilingual'', ''multilingual.json''),
      (''Typewriters'', ''typewriters.json'')]"

text \<open>\<open>{cat: [] for cat in categories.keys()}\<close>\<close>

definition empty_quotes_by_category :: "string \<rightharpoonup> quote list" where
  "empty_quotes_by_category = map_of (map (\<lambda>(cat, filename). (cat, [])) categories)"

section \<open>The extractor and the categorizer\<close>

definition quote_of :: "string \<Rightarrow> string \<Rightarrow> string \<Rightarrow> string \<Rightarrow> string \<Rightarrow> quote" where
  "quote_of m_text m_source m_difficulty m_category m_origin =
     \<lparr>quote_text = m_text, quote_source = m_source, quote_difficulty = m_difficulty,
      quote_category = m_category, quote_origin = m_origin\<rparr>"

text \<open>
  The body of \<open>for match in matches\<close>: the tuple is unpacked into five names (Python
  raises ValueError on a tuple of another length), the quote is built, and it is appended
  to the list of its category when \<open>quotes_by_category\<close> has that key.
\<close>

fun extract_loop :: "string list list \<Rightarrow> state \<Rightarrow> outcome" where
  "extract_loop [] st = Inr st"
| "extract_loop (m # matches) st =
     (case m of
        [m_text, m_source, m_difficulty, m_category, m_origin] \<Rightarrow>
          (let quote = quote_of m_text m_source m_difficulty m_category m_origin
           in case quotes_by_category st m_category of
                Some qs \<Rightarrow>
                  extract_loop matches
                    (st\<lparr>quotes_by_category := (quotes_by_category st)(m_category \<mapsto> qs @ [quote])\<rparr>)
              | None \<Rightarrow> extract_loop matches (print (Unknown_category m_category) st))
      | _ \<Rightarrow> Inl (ValueError, st))"

definition extract_quotes_from_file :: "string \<Rightarrow> state \<Rightarrow> outcome" where
  "extract_quotes_from_file file_path st =
     (case source_files st file_path of
        None \<Rightarrow> Inl (FileNotFoundError, st)
      | Some content \<Rightarrow>
          (let st1 = print (Parsing file_path) st;
               matches = findall content;
               st2 = print (Found (length matches)) st1
           in extract_loop matches st2))"

section \<open>The merge-writer\<close>

text \<open>
  \<open>with open(filepath, 'w') as f: json.dump(all_quotes, f, indent=2)\<close>: the file is
  opened for writing, which is recorded, and then holds the list.
\<close>

definition json_dump :: "string \<Rightarrow> quote list \<Rightarrow> state \<Rightarrow> state" where
  "json_dump filepath all_quotes st =
     st\<lparr>json_files := (json_files st)(filepath \<mapsto> Quotes all_quotes),
        writes := writes st @ [filepath]\<rparr>"

text \<open>\<open>Path(f"quotes/categories/{filename}")\<close>\<close>

definition category_path :: "string \<Rightarrow> string" where
  "category_path filename = ''quotes/categories/'' @ filename"

text \<open>
  \<open>for category, filename in categories.items()\<close>, with \<open>continue\<close> as the recursive call
  on the remaining items.
\<close>

fun save_loop :: "(string \<times> string) list \<Rightarrow> state \<Rightarrow> outcome" where
  "save_loop [] st = Inr st"
| "save_loop ((category, filename) # items) st =
     (case quotes_by_category st category of
        None \<Rightarrow> Inl (KeyError, st)
      | Some quotes \<Rightarrow>
          if quotes = [] then save_loop items (print (No_quotes_found category) st)
          else
            (let filepath = category_path filename
             in case json_files st filepath of
                  Some Invalid_json \<Rightarrow> Inl (JSONDecodeError, st)
                | Some (Quotes existing_quotes) \<Rightarrow>
                    (let existing_texts = set (map quote_text existing_quotes);
                         new_quotes = filter (\<lambda>q. quote_text q \<notin> existing_texts) quotes
                     in if new_quotes = []
                        then save_loop items (print (No_new_quotes category) st)
                        else
                          (let all_quotes = existing_quotes @ new_quotes;
                               st1 = print (Adding (length new_quotes) (length existing_quotes)
                                       category) st;
                               st2 = json_dump filepath all_quotes st1
                           in save_loop items (print (Saved (length all_quotes) filepath) st2)))
                | None \<Rightarrow>
                    (let all_quotes = quotes;
                         st1 = print (Creating (length quotes) category) st;
                         st2 = json_dump filepath all_quotes st1
                     in save_loop items (print (Saved (length all_quotes) filepath) st2))))"

text \<open>
  One pass through the body of that loop, for one item: what \<open>save_loop\<close> does before it
  goes on with the remaining items (lemma \<open>save_loop_Cons\<close>).
\<close>

definition save_category :: "string \<Rightarrow> string \<Rightarrow> state \<Rightarrow> outcome" where
  "save_category category filename st =
     (case quotes_by_category st category of
        None \<Rightarrow> Inl (KeyError, st)
      | Some quotes \<Rightarrow>
          if quotes = [] then Inr (print (No_quotes_found category) st)
          else
            (let filepath = category_path filename
             in case json_files st filepath of
                  Some Invalid_json \<Rightarrow> Inl (JSONDecodeError, st)
                | Some (Quotes existing_quotes) \<Rightarrow>
                    (let existing_texts = set (map quote_text existing_quotes);
                         new_quotes = filter (\<lambda>q. quote_text q \<notin> existing_texts) quotes
                     in if new_quotes = []
                        then Inr (print (No_new_quotes category) st)
                        else
                          (let all_quotes = existing_quotes @ new_quotes;
                               st1 = print (Adding (length new_quotes) (length existing_quotes)
                                       category) st;
                               st2 = json_dump filepath all_quotes st1
                           in Inr (print (Saved (length all_quotes) filepath) st2)))
                | None \<Rightarrow>
                    (let all_quotes = quotes;
                         st1 = print (Creating (length quotes) category) st;
                         st2 = json_dump filepath all_quotes st1
                     in Inr (print (Saved (length all_quotes) filepath) st2))))"

definition save_quotes_to_json :: "state \<Rightarrow> outcome" where
  "save_quotes_to_json st = save_loop categories st"

section \<open>A run of the script\<close>

definition main :: "state \<Rightarrow> outcome" where
  "main st =
     (case extract_quotes_from_file ''src/quotes.rs'' st of
        Inl e \<Rightarrow> Inl e
      | Inr st1 \<Rightarrow>
          (case save_quotes_to_json st1 of
             Inl e \<Rightarrow> Inl e
           | Inr st2 \<Rightarrow> Inr (print Complete st2)))"

text \<open>
  Every run is a new process: \<open>quotes_by_category\<close> starts with an empty list for each
  category and nothing is printed yet; the files are what the runs before left.
\<close>

definition initial_state :: "(string \<rightharpoonup> string) \<Rightarrow> (string \<rightharpoonup> stored) \<Rightarrow> state" where
  "initial_state srcs files =
     \<lparr>quotes_by_category = empty_quotes_by_category, source_files = srcs,
      json_files = files, stdout = [], writes = []\<rparr>"

fun final_state :: "outcome \<Rightarrow> state" where
  "final_state (Inl (e, st)) = st"
| "final_state (Inr st) = st"

definition run :: "(string \<rightharpoonup> string) \<Rightarrow> (string \<rightharpoonup> stored) \<Rightarrow> (string \<rightharpoonup> stored)" where
  "run srcs files = json_files (final_state (main (initial_state srcs files)))"

text \<open>A sequence of runs, each with the source files of its own time.\<close>

fun runs :: "(string \<rightharpoonup> string) list \<Rightarrow> (string \<rightharpoonup> stored) \<Rightarrow> (string \<rightharpoonup> stored)" where
  "runs [] files = files"
| "runs (srcs # later) files = runs later (run srcs files)"

section \<open>Properties of the merge-writer\<close>

lemma print_fields [simp]:
  "quotes_by_category (print m st) = quotes_by_category st"
  "source_files (print m st) = source_files st"
  "json_files (print m st) = json_files st"
  "stdout (print m st) = stdout st @ [m]"
  "writes (print m st) = writes st"
  by (simp_all add: print_def)

lemma json_dump_fields [simp]:
  "quotes_by_category (json_dump p qs st) = quotes_by_category st"
  "source_files (json_dump p qs st) = source_files st"
  "json_files (json_dump p qs st) = (json_files st)(p \<mapsto> Quotes qs)"
  "stdout (json_dump p qs st) = stdout st"
  "writes (json_dump p qs st) = writes st @ [p]"
  by (simp_all add: json_dump_def)

lemma save_loop_Cons:
  "save_loop ((c, f) # items) st =
     (case save_category c f st of Inl e \<Rightarrow> Inl e | Inr st1 \<Rightarrow> save_loop items st1)"
  by (simp add: save_category_def Let_def split: option.splits stored.splits)

declare save_loop.simps(2) [simp del]

lemma category_path_inj [simp]: "category_path f = category_path g \<longleftrightarrow> f = g"
  by (simp add: category_path_def)

lemma save_category_Inl: "save_category c f st = Inl (e, s) \<Longrightarrow> s = st"
  by (auto simp: save_category_def Let_def split: option.splits stored.splits if_splits)

lemma save_category_frame:
  "quotes_by_category (final_state (save_category c f st)) = quotes_by_category st"
  "source_files (final_state (save_category c f st)) = source_files st"
  "p \<noteq> category_path f \<Longrightarrow> json_files (final_state (save_category c f st)) p = json_files st p"
  by (auto simp: save_category_def Let_def split: option.splits stored.splits)

text \<open>What the file of an item holds after the pass.\<close>

fun merged :: "quote list \<Rightarrow> stored option \<Rightarrow> stored option" where
  "merged [] old = old"
| "merged (q # qs) None = Some (Quotes (q # qs))"
| "merged (q # qs) (Some (Quotes E)) =
     Some (Quotes (E @ filter (\<lambda>n. quote_text n \<notin> set (map quote_text E)) (q # qs)))"
| "merged (q # qs) (Some Invalid_json) = Some Invalid_json"

lemma save_category_file:
  "quotes_by_category st c = Some N \<Longrightarrow>
   json_files (final_state (save_category c f st)) (category_path f) =
     merged N (json_files st (category_path f))"
  by (cases "(N, json_files st (category_path f))" rule: merged.cases)
     (auto simp: save_category_def Let_def split: option.splits stored.splits)


lemma save_category_valid:
  "json_files st p \<noteq> Some Invalid_json \<Longrightarrow>
   json_files (final_state (save_category c f st)) p \<noteq> Some Invalid_json"
  by (auto simp: save_category_def Let_def split: option.splits stored.splits)

lemma save_category_ok:
  "quotes_by_category st c \<noteq> None \<Longrightarrow> json_files st (category_path f) \<noteq> Some Invalid_json \<Longrightarrow>
   \<exists>st1. save_category c f st = Inr st1"
  by (auto simp: save_category_def Let_def split: option.splits stored.splits)

lemma save_loop_frame:
  "quotes_by_category (final_state (save_loop items st)) = quotes_by_category st \<and>
   source_files (final_state (save_loop items st)) = source_files st \<and>
   (p \<notin> category_path ` snd ` set items \<longrightarrow>
      json_files (final_state (save_loop items st)) p = json_files st p)"
proof (induction items arbitrary: st)
  case Nil
  show ?case by simp
next
  case (Cons item items)
  obtain c f where item: "item = (c, f)" by (cases item)
  show ?case
  proof (cases "save_category c f st")
    case (Inl e)
    then obtain err s where "e = (err, s)" by (cases e)
    with Inl save_category_Inl [of c f st err s] show ?thesis
      by (simp add: item save_loop_Cons)
  next
    case (Inr st1)
    have "quotes_by_category st1 = quotes_by_category st" "source_files st1 = source_files st"
      using save_category_frame(1,2) [of c f st] Inr by simp_all
    moreover have "p \<noteq> category_path f \<Longrightarrow> json_files st1 p = json_files st p"
      using save_category_frame(3) [of p f c st] Inr by simp
    ultimately show ?thesis
      using Cons.IH [of st1] Inr by (auto simp: item save_loop_Cons)
  qed
qed

lemma save_loop_ok:
  "\<forall>(c, f) \<in> set items. quotes_by_category st c \<noteq> None \<and>
      json_files st (category_path f) \<noteq> Some Invalid_json \<Longrightarrow>
   \<exists>st'. save_loop items st = Inr st'"
proof (induction items arbitrary: st)
  case Nil
  show ?case by simp
next
  case (Cons item items)
  obtain c f where item: "item = (c, f)" by (cases item)
  from Cons.prems item obtain st1 where st1: "save_category c f st = Inr st1"
    using save_category_ok [of st c f] by auto
  have q: "quotes_by_category st1 = quotes_by_category st"
    using save_category_frame(1) [of c f st] st1 by simp
  have v: "json_files st1 p \<noteq> Some Invalid_json" if "json_files st p \<noteq> Some Invalid_json" for p
    using save_category_valid [OF that, of c f] st1 by simp
  have "\<forall>(c, f) \<in> set items. quotes_by_category st1 c \<noteq> None \<and>
      json_files st1 (category_path f) \<noteq> Some Invalid_json"
    using Cons.prems q v by auto
  from Cons.IH [OF this] show ?case
    by (simp add: item save_loop_Cons st1)
qed

lemma save_loop_file_Inr:
  assumes "distinct (map snd items)" and "(c, f) \<in> set items"
    and "quotes_by_category st c = Some N" and "save_loop items st = Inr st'"
  shows "json_files st' (category_path f) = merged N (json_files st (category_path f))"
  using assms
proof (induction items arbitrary: st)
  case Nil
  then show ?case by simp
next
  case (Cons item items)
  obtain c0 f0 where item: "item = (c0, f0)" by (cases item)
  from Cons.prems(4) obtain st1 where st1: "save_category c0 f0 st = Inr st1"
    and rest: "save_loop items st1 = Inr st'"
    by (auto simp: item save_loop_Cons split: sum.splits)
  have q: "quotes_by_category st1 = quotes_by_category st"
    using save_category_frame(1) [of c0 f0 st] st1 by simp
  have f0: "f0 \<notin> snd ` set items" and d: "distinct (map snd items)"
    using Cons.prems(1) by (auto simp: item)
  show ?case
  proof (cases "(c, f) = (c0, f0)")
    case True
    have "json_files st1 (category_path f) = merged N (json_files st (category_path f))"
      using save_category_file [of st c N f] Cons.prems(3) st1 True by simp
    moreover have "category_path f \<notin> category_path ` snd ` set items"
      using f0 True by force
    then have "json_files st' (category_path f) = json_files st1 (category_path f)"
      using save_loop_frame [of items st1 "category_path f"] rest by simp
    ultimately show ?thesis by simp
  next
    case False
    then have mem: "(c, f) \<in> set items" using Cons.prems(2) by (auto simp: item)
    then have "f \<noteq> f0" using f0 by force
    then have "json_files st1 (category_path f) = json_files st (category_path f)"
      using save_category_frame(3) [of "category_path f" f0 c0 st] st1 by simp
    moreover have "quotes_by_category st1 c = Some N"
      using q Cons.prems(3) by simp
    ultimately show ?thesis
      using Cons.IH [OF d mem _ rest] by simp
  qed
qed

lemma save_loop_file_final:
  assumes "distinct (map snd items)" and "(c, f) \<in> set items"
    and "quotes_by_category st c = Some N"
  shows "json_files (final_state (save_loop items st)) (category_path f) = json_files st (category_path f)
       \<or> json_files (final_state (save_loop items st)) (category_path f) = merged N (json_files st (category_path f))"
  using assms
proof (induction items arbitrary: st)
  case Nil
  then show ?case by simp
next
  case (Cons item items)
  obtain c0 f0 where item: "item = (c0, f0)" by (cases item)
  have f0: "f0 \<notin> snd ` set items" and d: "distinct (map snd items)"
    using Cons.prems(1) by (auto simp: item)
  show ?case
  proof (cases "save_category c0 f0 st")
    case (Inl e)
    then obtain err s where "e = (err, s)" by (cases e)
    with Inl save_category_Inl [of c0 f0 st err s] show ?thesis
      by (simp add: item save_loop_Cons)
  next
    case (Inr st1)
    have q: "quotes_by_category st1 = quotes_by_category st"
      using save_category_frame(1) [of c0 f0 st] Inr by simp
    have fin: "final_state (save_loop (item # items) st) = final_state (save_loop items st1)"
      by (simp add: item save_loop_Cons Inr)
    show ?thesis
    proof (cases "(c, f) = (c0, f0)")
      case True
      have "json_files st1 (category_path f) = merged N (json_files st (category_path f))"
        using save_category_file [of st c N f] Cons.prems(3) Inr True by simp
      moreover have "category_path f \<notin> category_path ` snd ` set items"
        using f0 True by force
      then have "json_files (final_state (save_loop items st1)) (category_path f)
          = json_files st1 (category_path f)"
        using save_loop_frame [of items st1 "category_path f"] by simp
      ultimately show ?thesis by (simp add: fin)
    next
      case False
      then have mem: "(c, f) \<in> set items" using Cons.prems(2) by (auto simp: item)
      then have "f \<noteq> f0" using f0 by force
      then have "json_files st1 (category_path f) = json_files st (category_path f)"
        using save_category_frame(3) [of "category_path f" f0 c0 st] Inr by simp
      moreover have "quotes_by_category st1 c = Some N"
        using q Cons.prems(3) by simp
      ultimately show ?thesis
        using Cons.IH [OF d mem, of st1] by (simp add: fin)
    qed
  qed
qed

lemma distinct_categories: "distinct (map snd categories)" "distinct (map fst categories)"
  by (simp_all add: categories_def)

text \<open>Sample records and sample states, used to run the theorems on concrete inputs.\<close>

definition sample_quote :: "string \<Rightarrow> string \<Rightarrow> quote" where
  "sample_quote t c = quote_of t ''s'' ''Easy'' c ''o''"

definition sample_state :: "string \<Rightarrow> quote list \<Rightarrow> (string \<rightharpoonup> stored) \<Rightarrow> state" where
  "sample_state c qs files =
     \<lparr>quotes_by_category = empty_quotes_by_category(c \<mapsto> qs), source_files = Map.empty,
      json_files = files, stdout = [], writes = []\<rparr>"

lemma sample_state_ready:
  "\<forall>(c, f) \<in> set categories. quotes_by_category (sample_state ''Humor'' qs files) c \<noteq> None"
  by (simp add: sample_state_def categories_def empty_quotes_by_category_def)


definition sample_block :: "string \<Rightarrow> string \<Rightarrow> string" where
  "sample_block t c =
     ''Quote{text:'' @ [dquote] @ t @ [dquote] @ ''.to_string(),source:'' @ [dquote] @ ''s'' @ [dquote] @
     ''.to_string(),difficulty:QuoteDifficulty::Easy,category:QuoteCategory::'' @ c @
     '',origin:'' @ [dquote] @ ''o'' @ [dquote] @ ''.to_string(),}''"

lemmas char_cls = is_space_def is_word_def dquote_def

lemma findall_two:
  "findall (sample_block ''A'' ''Humor'' @ sample_block ''A'' ''Humor'') =
     [[''A'', ''s'', ''Easy'', ''Humor'', ''o''], [''A'', ''s'', ''Easy'', ''Humor'', ''o'']]"
  by (simp add: sample_block_def quote_pattern_def lit_def char_cls)



lemma filter_seen_after_merge:
  "filter (\<lambda>q. quote_text q \<notin> set (map quote_text (E @ filter (\<lambda>q. quote_text q \<notin> set (map quote_text E)) N))) N = []"
  by (auto simp: filter_empty_conv)

lemma filter_seen_self:
  "filter (\<lambda>q. quote_text q \<notin> set (map quote_text N)) N = []"
  by (auto simp: filter_empty_conv)

lemma save_category_again:
  assumes "save_category c f st = Inr st1"
    and "quotes_by_category st2 = quotes_by_category st"
    and "json_files st2 (category_path f) = json_files st1 (category_path f)"
  shows "\<exists>st2'. save_category c f st2 = Inr st2' \<and> json_files st2' = json_files st2 \<and>
           quotes_by_category st2' = quotes_by_category st2"
proof (cases "quotes_by_category st c")
  case None
  with assms(1) show ?thesis by (simp add: save_category_def)
next
  case (Some N)
  show ?thesis
  proof (cases "N = []")
    case True
    with Some assms(2) show ?thesis by (simp add: save_category_def)
  next
    case False
    show ?thesis
    proof (cases "json_files st (category_path f)")
      case None
      with Some False assms(1) have "json_files st1 (category_path f) = Some (Quotes N)"
        by (auto simp: save_category_def Let_def)
      with assms(2,3) Some False show ?thesis
        by (simp add: save_category_def Let_def filter_seen_self)
    next
      case (Some old)
      show ?thesis
      proof (cases old)
        case Invalid_json
        with Some \<open>quotes_by_category st c = Some N\<close> False assms(1) show ?thesis
          by (simp add: save_category_def Let_def)
      next
        case (Quotes E)
        let ?new = "filter (\<lambda>q. quote_text q \<notin> set (map quote_text E)) N"
        have "json_files st1 (category_path f) = Some (Quotes (E @ ?new))"
          using Some Quotes \<open>quotes_by_category st c = Some N\<close> False assms(1)
          by (auto simp: save_category_def Let_def split: if_splits)
        with assms(2,3) \<open>quotes_by_category st c = Some N\<close> False show ?thesis
          using filter_seen_after_merge [of E N]
          by (simp add: save_category_def Let_def del: map_append set_append)
      qed
    qed
  qed
qed

lemma save_category_fails_again:
  assumes "save_category c f st = Inl (e, s)"
    and "quotes_by_category st2 = quotes_by_category st"
    and "json_files st2 (category_path f) = json_files st (category_path f)"
  shows "save_category c f st2 = Inl (e, st2)"
  using assms
  by (auto simp: save_category_def Let_def split: option.splits stored.splits if_splits)

lemma save_loop_idem:
  assumes "distinct (map snd items)"
    and "quotes_by_category st2 = quotes_by_category st"
    and "json_files st2 = json_files (final_state (save_loop items st))"
  shows "json_files (final_state (save_loop items st2)) = json_files st2"
  using assms
proof (induction items arbitrary: st st2)
  case Nil
  then show ?case by simp
next
  case (Cons item items)
  obtain c f where item: "item = (c, f)" by (cases item)
  have f: "category_path f \<notin> category_path ` snd ` set items" and d: "distinct (map snd items)"
    using Cons.prems(1) by (force simp: item)+
  show ?case
  proof (cases "save_category c f st")
    case (Inl e)
    then obtain err s where e: "e = (err, s)" by (cases e)
    with Inl save_category_Inl [of c f st err s] have fin: "final_state (save_loop (item # items) st) = st"
      by (simp add: item save_loop_Cons)
    with Cons.prems(3) have "json_files st2 (category_path f) = json_files st (category_path f)"
      by simp
    from save_category_fails_again [OF _ Cons.prems(2) this] Inl e
    have "save_category c f st2 = Inl (err, st2)" by simp
    then show ?thesis by (simp add: item save_loop_Cons)
  next
    case (Inr st1)
    have fin: "final_state (save_loop (item # items) st) = final_state (save_loop items st1)"
      by (simp add: item save_loop_Cons Inr)
    have "json_files (final_state (save_loop items st1)) (category_path f)
        = json_files st1 (category_path f)"
      using save_loop_frame [of items st1 "category_path f"] f by simp
    with Cons.prems(3) fin have "json_files st2 (category_path f) = json_files st1 (category_path f)"
      by simp
    from save_category_again [OF Inr Cons.prems(2) this]
    obtain st2' where st2': "save_category c f st2 = Inr st2'"
      and j: "json_files st2' = json_files st2"
      and q: "quotes_by_category st2' = quotes_by_category st2"
      by blast
    have q1: "quotes_by_category st1 = quotes_by_category st"
      using save_category_frame(1) [of c f st] Inr by simp
    have "json_files (final_state (save_loop items st2')) = json_files st2'"
    proof (rule Cons.IH [OF d])
      show "quotes_by_category st2' = quotes_by_category st1"
        using q q1 Cons.prems(2) by simp
      show "json_files st2' = json_files (final_state (save_loop items st1))"
        using j Cons.prems(3) fin by simp
    qed
    then show ?thesis
      by (simp add: item save_loop_Cons st2' j)
  qed
qed

lemma save_category_writes_other:
  "p \<noteq> category_path f \<Longrightarrow>
   count_list (writes (final_state (save_category c f st))) p = count_list (writes st) p"
  by (auto simp: save_category_def Let_def split: option.splits stored.splits)

lemma save_category_no_write:
  assumes "quotes_by_category st c = Some N"
    and "N = [] \<or> (\<exists>E. json_files st (category_path f) = Some (Quotes E) \<and>
           (\<forall>q \<in> set N. quote_text q \<in> set (map quote_text E)))"
  shows "writes (final_state (save_category c f st)) = writes st"
proof (cases "N = []")
  case True
  with assms(1) show ?thesis by (simp add: save_category_def)
next
  case False
  with assms(2) obtain E where E: "json_files st (category_path f) = Some (Quotes E)"
    and seen: "\<forall>q \<in> set N. quote_text q \<in> set (map quote_text E)"
    by auto
  from seen have "filter (\<lambda>n. quote_text n \<notin> set (map quote_text E)) N = []"
    by (simp add: filter_empty_conv)
  with assms(1) E False show ?thesis
    by (simp add: save_category_def Let_def)
qed

lemma save_loop_writes_frame:
  "p \<notin> category_path ` snd ` set items \<Longrightarrow>
   count_list (writes (final_state (save_loop items st))) p = count_list (writes st) p"
proof (induction items arbitrary: st)
  case Nil
  show ?case by simp
next
  case (Cons item items)
  obtain c f where item: "item = (c, f)" by (cases item)
  from Cons.prems have p: "p \<noteq> category_path f" and rest: "p \<notin> category_path ` snd ` set items"
    by (auto simp: item)
  show ?case
  proof (cases "save_category c f st")
    case (Inl e)
    then obtain err s where "e = (err, s)" by (cases e)
    with Inl save_category_Inl [of c f st err s] show ?thesis
      by (simp add: item save_loop_Cons)
  next
    case (Inr st1)
    have "count_list (writes st1) p = count_list (writes st) p"
      using save_category_writes_other [OF p, of c st] Inr by simp
    with Cons.IH [OF rest, of st1] Inr show ?thesis
      by (simp add: item save_loop_Cons)
  qed
qed

lemma save_loop_no_write:
  assumes "distinct (map snd items)" and "(c, f) \<in> set items"
    and "quotes_by_category st c = Some N"
    and "N = [] \<or> (\<exists>E. json_files st (category_path f) = Some (Quotes E) \<and>
           (\<forall>q \<in> set N. quote_text q \<in> set (map quote_text E)))"
  shows "count_list (writes (final_state (save_loop items st))) (category_path f)
           = count_list (writes st) (category_path f)"
  using assms
proof (induction items arbitrary: st)
  case Nil
  then show ?case by simp
next
  case (Cons item items)
  obtain c0 f0 where item: "item = (c0, f0)" by (cases item)
  have f0: "f0 \<notin> snd ` set items" and d: "distinct (map snd items)"
    using Cons.prems(1) by (auto simp: item)
  show ?case
  proof (cases "save_category c0 f0 st")
    case (Inl e)
    then obtain err s where "e = (err, s)" by (cases e)
    with Inl save_category_Inl [of c0 f0 st err s] show ?thesis
      by (simp add: item save_loop_Cons)
  next
    case (Inr st1)
    have fin: "final_state (save_loop (item # items) st) = final_state (save_loop items st1)"
      by (simp add: item save_loop_Cons Inr)
    show ?thesis
    proof (cases "(c, f) = (c0, f0)")
      case True
      have "writes st1 = writes st"
        using save_category_no_write [OF Cons.prems(3,4)] Inr True by simp
      moreover have "category_path f \<notin> category_path ` snd ` set items"
        using f0 True by force
      ultimately show ?thesis
        using save_loop_writes_frame [of "category_path f" items st1] by (simp add: fin)
    next
      case False
      then have mem: "(c, f) \<in> set items" using Cons.prems(2) by (auto simp: item)
      then have ne: "f \<noteq> f0" using f0 by force
      then have j: "json_files st1 (category_path f) = json_files st (category_path f)"
        using save_category_frame(3) [of "category_path f" f0 c0 st] Inr by simp
      have q: "quotes_by_category st1 c = Some N"
        using save_category_frame(1) [of c0 f0 st] Inr Cons.prems(3) by simp
      have w: "count_list (writes st1) (category_path f) = count_list (writes st) (category_path f)"
        using save_category_writes_other [of "category_path f" f0 c0 st] ne Inr by simp
      have "N = [] \<or> (\<exists>E. json_files st1 (category_path f) = Some (Quotes E) \<and>
           (\<forall>q \<in> set N. quote_text q \<in> set (map quote_text E)))"
        using Cons.prems(4) j by simp
      from Cons.IH [OF d mem q this] w show ?thesis by (simp add: fin)
    qed
  qed
qed

section \<open>Properties of the pattern and of the scan\<close>

text \<open>The classes of the capturing groups of a pattern, in order.\<close>

fun group_classes :: "atom list \<Rightarrow> cls list" where
  "group_classes [] = []"
| "group_classes (GroupStar k # p) = k # group_classes p"
| "group_classes (GroupPlus k # p) = k # group_classes p"
| "group_classes (a # p) = group_classes p"

lemma open_group_classes:
  "open_group r = Some (gs, rest) \<Longrightarrow>
   (\<And>gs'. r = Some (gs', rest) \<Longrightarrow> list_all2 (\<lambda>g k. \<forall>c \<in> set g. in_cls k c) gs' ks) \<Longrightarrow>
   list_all2 (\<lambda>g k. \<forall>c \<in> set g. in_cls k c) gs (k # ks)"
  by (cases r rule: open_group.cases) auto

lemma extend_group_classes:
  "extend_group x r = Some (gs, rest) \<Longrightarrow> in_cls k x \<Longrightarrow>
   (\<And>gs'. r = Some (gs', rest) \<Longrightarrow> list_all2 (\<lambda>g k. \<forall>c \<in> set g. in_cls k c) gs' (k # ks)) \<Longrightarrow>
   list_all2 (\<lambda>g k. \<forall>c \<in> set g. in_cls k c) gs (k # ks)"
  by (cases "(x, r)" rule: extend_group.cases) auto

lemma rmatch_groups:
  "rmatch p s = Some (gs, rest) \<Longrightarrow>
   list_all2 (\<lambda>g k. \<forall>c \<in> set g. in_cls k c) gs (group_classes p)"
proof (induction p s arbitrary: gs rule: rmatch.induct)
  case (7 k p x xs)
  then show ?case by (auto split: if_splits option.splits)
next
  case (10 k p)
  then show ?case by (auto intro: open_group_classes)
next
  case (11 k p x xs)
  show ?case
  proof (cases "in_cls k x \<and> rmatch (GroupStar k # p) xs \<noteq> None")
    case True
    then obtain r where r: "rmatch (GroupStar k # p) xs = Some r" by auto
    with True 11(4) have e: "extend_group x (Some r) = Some (gs, rest)" by simp
    show ?thesis
      using extend_group_classes [OF e, of k "group_classes p"] True r 11(1) by auto
  next
    case False
    with 11(4) have o: "open_group (rmatch p (x # xs)) = Some (gs, rest)"
      by (auto split: if_splits option.splits)
    have "list_all2 (\<lambda>g k. \<forall>c \<in> set g. in_cls k c) gs' (group_classes p)"
      if "rmatch p (x # xs) = Some (gs', rest)" for gs'
    proof (cases "in_cls k x")
      case True
      with False have "rmatch (GroupStar k # p) xs = None"
        by (cases "rmatch (GroupStar k # p) xs") auto
      from 11(2) [OF True this that] show ?thesis .
    next
      case False
      from 11(3) [OF False that] show ?thesis .
    qed
    with open_group_classes [OF o, of "group_classes p" k] show ?thesis by simp
  qed
next
  case (13 k p x xs)
  then have x: "in_cls k x" and e: "extend_group x (rmatch (GroupStar k # p) xs) = Some (gs, rest)"
    by (auto split: if_splits)
  show ?case
    using extend_group_classes [OF e x, of "group_classes p"] 13(1) x by auto
qed (auto split: if_splits)

lemma group_classes_quote_pattern:
  "group_classes quote_pattern = [NotChr dquote, NotChr dquote, Word, Word, NotChr dquote]"
  by (simp add: quote_pattern_def lit_def)

lemma rmatch_quote_pattern_groups:
  assumes "rmatch quote_pattern s = Some (gs, rest)"
  shows "\<exists>t so d c og. gs = [t, so, d, c, og] \<and> dquote \<notin> set t \<and> dquote \<notin> set so \<and>
           dquote \<notin> set og \<and> (\<forall>x \<in> set d. is_word x) \<and> (\<forall>x \<in> set c. is_word x)"
proof -
  from rmatch_groups [OF assms]
  have "list_all2 (\<lambda>g k. \<forall>c \<in> set g. in_cls k c) gs
          [NotChr dquote, NotChr dquote, Word, Word, NotChr dquote]"
    by (simp add: group_classes_quote_pattern)
  then show ?thesis
    by (auto simp: list_all2_Cons2)
qed

lemma findall_sound:
  "m \<in> set (findall s) \<Longrightarrow>
   \<exists>pre post rest. s = pre @ post \<and> rmatch quote_pattern post = Some (m, rest)"
proof (induction s rule: findall.induct)
  case 1
  then show ?case by simp
next
  case (2 x xs)
  show ?case
  proof (cases "rmatch quote_pattern (x # xs)")
    case None
    with 2 obtain pre post rest where "xs = pre @ post" "rmatch quote_pattern post = Some (m, rest)"
      by auto
    then have "x # xs = (x # pre) @ post \<and> rmatch quote_pattern post = Some (m, rest)" by simp
    then show ?thesis by blast
  next
    case (Some r)
    obtain gs rest where r: "r = (gs, rest)" by (cases r)
    show ?thesis
    proof (cases "m = gs")
      case True
      with Some r have "x # xs = [] @ (x # xs) \<and> rmatch quote_pattern (x # xs) = Some (m, rest)"
        by simp
      then show ?thesis by blast
    next
      case False
      with 2(3) Some r have "m \<in> set (findall rest)" by simp
      from "2.IH"(2) [OF Some r [symmetric] this]
      obtain pre post rest' where p: "rest = pre @ post"
        "rmatch quote_pattern post = Some (m, rest')" by blast
      from rmatch_suffix Some r obtain pre0 where "x # xs = pre0 @ rest" by blast
      with p have "x # xs = (pre0 @ pre) @ post \<and> rmatch quote_pattern post = Some (m, rest')"
        by simp
      then show ?thesis by blast
    qed
  qed
qed

lemma findall_length:
  "m \<in> set (findall s) \<Longrightarrow> length m = 5"
proof -
  assume "m \<in> set (findall s)"
  from findall_sound [OF this] obtain pre post rest where "rmatch quote_pattern post = Some (m, rest)"
    by blast
  from rmatch_quote_pattern_groups [OF this] show ?thesis by auto
qed

text \<open>The quote the loop builds from a match.\<close>

fun match_quote :: "string list \<Rightarrow> quote" where
  "match_quote [m_text, m_source, m_difficulty, m_category, m_origin] =
     quote_of m_text m_source m_difficulty m_category m_origin"
| "match_quote m = quote_of [] [] [] [] []"

lemma length_5:
  "length m = 5 \<Longrightarrow> \<exists>a b c d e. m = [a, b, c, d, e]"
  by (auto simp: length_Suc_conv eval_nat_numeral)

lemma quote_of_fields [simp]:
  "quote_text (quote_of a b c d e) = a"
  "quote_source (quote_of a b c d e) = b"
  "quote_difficulty (quote_of a b c d e) = c"
  "quote_category (quote_of a b c d e) = d"
  "quote_origin (quote_of a b c d e) = e"
  by (simp_all add: quote_of_def)


lemma extract_loop_step:
  "extract_loop ([a, b, c, d, e] # ms) st =
     (case quotes_by_category st d of
        Some qs \<Rightarrow> extract_loop ms
          (st\<lparr>quotes_by_category := (quotes_by_category st)(d \<mapsto> qs @ [quote_of a b c d e])\<rparr>)
      | None \<Rightarrow> extract_loop ms (print (Unknown_category d) st))"
  by simp

declare extract_loop.simps(2) [simp del]

lemma extract_loop_effect:
  assumes "\<forall>m \<in> set ms. length m = 5"
  shows "\<exists>st'. extract_loop ms st = Inr st' \<and> json_files st' = json_files st \<and>
           source_files st' = source_files st \<and>
           (\<forall>c. quotes_by_category st' c =
              map_option (\<lambda>qs. qs @ filter (\<lambda>q. quote_category q = c) (map match_quote ms))
                (quotes_by_category st c)) \<and>
           stdout st' = stdout st @ map Unknown_category
              (filter (\<lambda>c. quotes_by_category st c = None) (map quote_category (map match_quote ms)))"
  using assms
proof (induction ms arbitrary: st)
  case Nil
  show ?case by (simp add: option.map_ident)
next
  case (Cons m ms)
  then obtain a b c d e where m: "m = [a, b, c, d, e]"
    using length_5 [of m] by auto
  have len: "\<forall>m \<in> set ms. length m = 5" using Cons.prems by simp
  show ?case
  proof (cases "quotes_by_category st d")
    case None
    let ?st1 = "print (Unknown_category d) st"
    from Cons.IH [OF len, of ?st1]
    obtain st' where st': "extract_loop ms ?st1 = Inr st'"
      and j: "json_files st' = json_files st" and sf: "source_files st' = source_files st"
      and q: "\<forall>k. quotes_by_category st' k =
              map_option (\<lambda>qs. qs @ filter (\<lambda>q. quote_category q = k) (map match_quote ms))
                (quotes_by_category st k)"
      and out: "stdout st' = (stdout st @ [Unknown_category d]) @ map Unknown_category
              (filter (\<lambda>k. quotes_by_category st k = None) (map quote_category (map match_quote ms)))"
      by auto
    have "quotes_by_category st' k =
              map_option (\<lambda>qs. qs @ filter (\<lambda>q. quote_category q = k) (map match_quote (m # ms)))
                (quotes_by_category st k)" for k
    proof (cases "k = d")
      case True
      with q None show ?thesis by simp
    next
      case False
      with q show ?thesis by (simp add: m)
    qed
    then show ?thesis
      using st' j sf out None by (simp add: m extract_loop_step)
  next
    case (Some qs)
    let ?st1 = "st\<lparr>quotes_by_category := (quotes_by_category st)(d \<mapsto> qs @ [quote_of a b c d e])\<rparr>"
    have same: "(quotes_by_category ?st1 k = None) = (quotes_by_category st k = None)" for k
      using Some by simp
    from Cons.IH [OF len, of ?st1]
    obtain st' where st': "extract_loop ms ?st1 = Inr st'"
      and j: "json_files st' = json_files st" and sf: "source_files st' = source_files st"
      and q: "\<forall>k. quotes_by_category st' k =
              map_option (\<lambda>qs. qs @ filter (\<lambda>q. quote_category q = k) (map match_quote ms))
                (quotes_by_category ?st1 k)"
      and out: "stdout st' = stdout st @ map Unknown_category
              (filter (\<lambda>k. quotes_by_category st k = None) (map quote_category (map match_quote ms)))"
      unfolding same by auto
    have "quotes_by_category st' k =
              map_option (\<lambda>qs. qs @ filter (\<lambda>q. quote_category q = k) (map match_quote (m # ms)))
                (quotes_by_category st k)" for k
    proof (cases "k = d")
      case True
      with q Some show ?thesis by (simp add: m)
    next
      case False
      with q show ?thesis by (simp add: m)
    qed
    then show ?thesis
      using st' j sf out Some by (simp add: m extract_loop_step)
  qed
qed

text \<open>The records of one category among those the loop builds from the matches of a text.\<close>

definition batch :: "string \<Rightarrow> string \<Rightarrow> quote list" where
  "batch content c = filter (\<lambda>q. quote_category q = c) (map match_quote (findall content))"

lemma extract_quotes_from_file_effect:
  assumes "source_files st file_path = Some content"
  shows "\<exists>st'. extract_quotes_from_file file_path st = Inr st' \<and> json_files st' = json_files st \<and>
           source_files st' = source_files st \<and>
           (\<forall>c. quotes_by_category st' c =
              map_option (\<lambda>qs. qs @ batch content c) (quotes_by_category st c)) \<and>
           stdout st' = stdout st @ [Parsing file_path, Found (length (findall content))] @
              map Unknown_category
                (filter (\<lambda>c. quotes_by_category st c = None)
                   (map quote_category (map match_quote (findall content))))"
proof -
  let ?st2 = "print (Found (length (findall content))) (print (Parsing file_path) st)"
  have "\<forall>m \<in> set (findall content). length m = 5"
    using findall_length by blast
  from extract_loop_effect [OF this, of ?st2]
  show ?thesis
    using assms by (auto simp: extract_quotes_from_file_def Let_def batch_def)
qed

lemma empty_quotes_by_category_eq:
  "empty_quotes_by_category c = (if c \<in> fst ` set categories then Some [] else None)"
  by (simp add: empty_quotes_by_category_def categories_def)

lemma initial_state_fields [simp]:
  "quotes_by_category (initial_state srcs files) = empty_quotes_by_category"
  "source_files (initial_state srcs files) = srcs"
  "json_files (initial_state srcs files) = files"
  "stdout (initial_state srcs files) = []"
  "writes (initial_state srcs files) = []"
  by (simp_all add: initial_state_def)

lemma extract_initial:
  assumes "srcs file_path = Some content"
  shows "\<exists>st1. extract_quotes_from_file file_path (initial_state srcs files) = Inr st1 \<and>
           json_files st1 = files \<and>
           quotes_by_category st1 =
             (\<lambda>c. if c \<in> fst ` set categories then Some (batch content c) else None)"
proof -
  have "source_files (initial_state srcs files) file_path = Some content"
    using assms by simp
  from extract_quotes_from_file_effect [OF this]
  obtain st1 where st1: "extract_quotes_from_file file_path (initial_state srcs files) = Inr st1"
    and j: "json_files st1 = files"
    and q: "\<forall>c. quotes_by_category st1 c =
              map_option (\<lambda>qs. qs @ batch content c) (empty_quotes_by_category c)"
    by auto
  have "quotes_by_category st1 =
      (\<lambda>c. if c \<in> fst ` set categories then Some (batch content c) else None)"
    using q by (auto simp: empty_quotes_by_category_eq)
  with st1 j show ?thesis by blast
qed

lemma run_missing_source:
  "srcs ''src/quotes.rs'' = None \<Longrightarrow> run srcs files = files"
  by (simp add: run_def main_def extract_quotes_from_file_def)

lemma run_with_source:
  assumes "srcs ''src/quotes.rs'' = Some content"
  shows "\<exists>st1. json_files st1 = files \<and>
           quotes_by_category st1 =
             (\<lambda>c. if c \<in> fst ` set categories then Some (batch content c) else None) \<and>
           run srcs files = json_files (final_state (save_loop categories st1))"
proof -
  from extract_initial [of srcs "''src/quotes.rs''" content files] assms
  obtain st1 where st1: "extract_quotes_from_file ''src/quotes.rs'' (initial_state srcs files) = Inr st1"
    and j: "json_files st1 = files"
    and q: "quotes_by_category st1 =
             (\<lambda>c. if c \<in> fst ` set categories then Some (batch content c) else None)"
    by blast
  have "run srcs files = json_files (final_state (save_loop categories st1))"
    by (cases "save_loop categories st1")
       (auto simp: run_def main_def st1 save_quotes_to_json_def)
  with j q show ?thesis by blast
qed

text \<open>
  The lists \<open>quotes_by_category\<close> holds when \<open>extract_quotes_from_file\<close> is done, in a run
  on the source files \<open>srcs\<close>.
\<close>

definition extracted :: "(string \<rightharpoonup> string) \<Rightarrow> (string \<rightharpoonup> quote list)" where
  "extracted srcs =
     quotes_by_category
       (final_state (extract_quotes_from_file ''src/quotes.rs'' (initial_state srcs Map.empty)))"

lemma extracted_eq:
  "srcs ''src/quotes.rs'' = Some content \<Longrightarrow>
   extracted srcs = (\<lambda>c. if c \<in> fst ` set categories then Some (batch content c) else None)"
  using extract_initial [of srcs "''src/quotes.rs''" content Map.empty]
  by (auto simp: extracted_def)

lemma run_file:
  assumes "srcs ''src/quotes.rs'' = Some content" and "(c, f) \<in> set categories"
    and "\<forall>(c, f) \<in> set categories. files (category_path f) \<noteq> Some Invalid_json"
  shows "run srcs files (category_path f) = merged (batch content c) (files (category_path f))"
proof -
  from run_with_source [of srcs content files] assms(1)
  obtain st1 where j: "json_files st1 = files"
    and q: "quotes_by_category st1 =
             (\<lambda>c. if c \<in> fst ` set categories then Some (batch content c) else None)"
    and r: "run srcs files = json_files (final_state (save_loop categories st1))"
    by blast
  have "\<forall>(c, f) \<in> set categories. quotes_by_category st1 c \<noteq> None \<and>
      json_files st1 (category_path f) \<noteq> Some Invalid_json"
    using assms(3) j q by force
  from save_loop_ok [OF this] obtain st' where st': "save_loop categories st1 = Inr st'"
    by blast
  have "quotes_by_category st1 c = Some (batch content c)"
    using q assms(2) by force
  from save_loop_file_Inr [OF distinct_categories(1) assms(2) this st']
  show ?thesis using r st' j by simp
qed

lemma run_other_file:
  "p \<notin> category_path ` snd ` set categories \<Longrightarrow> run srcs files p = files p"
proof (cases "srcs ''src/quotes.rs''")
  case None
  then show ?thesis by (simp add: run_missing_source)
next
  case (Some content)
  assume p: "p \<notin> category_path ` snd ` set categories"
  from run_with_source [of srcs content files] Some
  obtain st1 where j: "json_files st1 = files"
    and r: "run srcs files = json_files (final_state (save_loop categories st1))"
    by blast
  with save_loop_frame [of categories st1 p] p show ?thesis by simp
qed

lemma batch_two:
  "batch (sample_block ''A'' ''Humor'' @ sample_block ''A'' ''Humor'') ''Humor''
     = [sample_quote ''A'' ''Humor'', sample_quote ''A'' ''Humor'']"
  by (simp add: batch_def findall_two sample_quote_def)

lemma humor_item: "(''Humor'', ''humor.json'') \<in> set categories"
  by (simp add: categories_def)







text \<open>
  A sample state in which \<open>typewriters.json\<close> is unreadable: the merge-writer returns all
  the same, since nothing was extracted for that category and its file is never opened.
\<close>

definition humor_state :: "quote list \<Rightarrow> stored option \<Rightarrow> state" where
  "humor_state qs old =
     sample_state ''Humor'' qs
       ((Map.empty(category_path ''typewriters.json'' \<mapsto> Invalid_json))
          (category_path ''humor.json'' := old))"

lemma humor_state_fields:
  "quotes_by_category (humor_state qs old) ''Humor'' = Some qs"
  "json_files (humor_state qs old) (category_path ''humor.json'') = old"
  "writes (humor_state qs old) = []"
  by (simp_all add: humor_state_def sample_state_def)


section \<open>Blocks of the fixed shape\<close>

text \<open>
  A text cut into pieces, one for each atom of a pattern. A repetition must be followed by
  a character outside its class (or by the end of the text): then the greedy repetition
  takes exactly its piece.
\<close>

fun stops :: "cls \<Rightarrow> string \<Rightarrow> bool" where
  "stops k [] = True"
| "stops k (y # ys) = (\<not> in_cls k y)"

fun fit1 :: "atom \<Rightarrow> string \<Rightarrow> string \<Rightarrow> bool" where
  "fit1 (Chr c) w nxt = (w = [c])"
| "fit1 Dot w nxt = (\<exists>x. w = [x] \<and> x \<noteq> CHR 0x0A)"
| "fit1 (Star k) w nxt = (list_all (in_cls k) w \<and> stops k nxt)"
| "fit1 (Plus k) w nxt = (w \<noteq> [] \<and> list_all (in_cls k) w \<and> stops k nxt)"
| "fit1 (GroupStar k) w nxt = (list_all (in_cls k) w \<and> stops k nxt)"
| "fit1 (GroupPlus k) w nxt = (w \<noteq> [] \<and> list_all (in_cls k) w \<and> stops k nxt)"

fun fits :: "(atom \<times> string) list \<Rightarrow> string \<Rightarrow> bool" where
  "fits [] rest = True"
| "fits ((a, w) # segs) rest = (fit1 a w (concat (map snd segs) @ rest) \<and> fits segs rest)"

fun captures :: "(atom \<times> string) list \<Rightarrow> string list" where
  "captures [] = []"
| "captures ((GroupStar k, w) # segs) = w # captures segs"
| "captures ((GroupPlus k, w) # segs) = w # captures segs"
| "captures ((a, w) # segs) = captures segs"

lemma rmatch_Star_app:
  "list_all (in_cls k) w \<Longrightarrow> stops k s \<Longrightarrow> rmatch p s = Some r \<Longrightarrow>
   rmatch (Star k # p) (w @ s) = Some r"
proof (induction w)
  case Nil
  then show ?case by (cases s) auto
next
  case (Cons x w)
  then show ?case by simp
qed

lemma rmatch_GroupStar_app:
  "list_all (in_cls k) w \<Longrightarrow> stops k s \<Longrightarrow> rmatch p s = Some (gs, rest) \<Longrightarrow>
   rmatch (GroupStar k # p) (w @ s) = Some (w # gs, rest)"
proof (induction w)
  case Nil
  then show ?case by (cases s) auto
next
  case (Cons x w)
  then show ?case by simp
qed

lemma rmatch_fits:
  "fits segs rest \<Longrightarrow>
   rmatch (map fst segs) (concat (map snd segs) @ rest) = Some (captures segs, rest)"
proof (induction segs)
  case Nil
  show ?case by simp
next
  case (Cons seg segs)
  obtain a w where seg: "seg = (a, w)" by (cases seg)
  let ?s = "concat (map snd segs) @ rest"
  from Cons seg have f: "fit1 a w ?s"
    and IH: "rmatch (map fst segs) ?s = Some (captures segs, rest)"
    by simp_all
  show ?case
  proof (cases a)
    case (Chr c)
    with f IH show ?thesis by (simp add: seg)
  next
    case Dot
    with f obtain x where "w = [x]" "x \<noteq> CHR 0x0A"
      by auto
    with IH Dot show ?thesis by (simp add: seg)
  next
    case (Star k)
    with f rmatch_Star_app [OF _ _ IH, of k w] show ?thesis
      by (simp add: seg)
  next
    case (Plus k)
    with f obtain x w' where w: "w = x # w'" and x: "in_cls k x" and w': "list_all (in_cls k) w'"
      and st: "stops k ?s"
      by (cases w) auto
    from rmatch_Star_app [OF w' st IH] x show ?thesis
      by (simp add: seg Plus w)
  next
    case (GroupStar k)
    with f rmatch_GroupStar_app [OF _ _ IH, of k w] show ?thesis
      by (simp add: seg)
  next
    case (GroupPlus k)
    with f obtain x w' where w: "w = x # w'" and x: "in_cls k x" and w': "list_all (in_cls k) w'"
      and st: "stops k ?s"
      by (cases w) auto
    from rmatch_GroupStar_app [OF w' st IH] x show ?thesis
      by (simp add: seg GroupPlus w)
  qed
qed

text \<open>
  A block of the five-field shape: the text the pattern describes, with the white space
  \<open>ws i\<close> at the twelve places of \<open>\s*\<close>, the characters \<open>dots i\<close> at the three unescaped
  dots of the pattern, and the five fields.
\<close>

definition block ::
  "(nat \<Rightarrow> string) \<Rightarrow> (nat \<Rightarrow> char) \<Rightarrow> string \<Rightarrow> string \<Rightarrow> string \<Rightarrow> string \<Rightarrow> string \<Rightarrow> string"
where
  "block ws dots t s d c og =
     ''Quote'' @ ws 0 @ ''{'' @ ws 1 @
     ''text:'' @ ws 2 @ [dquote] @ t @ [dquote] @ [dots 0] @ ''to_string(),'' @ ws 3 @
     ''source:'' @ ws 4 @ [dquote] @ s @ [dquote] @ [dots 1] @ ''to_string(),'' @ ws 5 @
     ''difficulty:'' @ ws 6 @ ''QuoteDifficulty::'' @ d @ '','' @ ws 7 @
     ''category:'' @ ws 8 @ ''QuoteCategory::'' @ c @ '','' @ ws 9 @
     ''origin:'' @ ws 10 @ [dquote] @ og @ [dquote] @ [dots 2] @ ''to_string(),'' @ ws 11 @
     ''}''"

definition well_formed ::
  "(nat \<Rightarrow> string) \<Rightarrow> (nat \<Rightarrow> char) \<Rightarrow> string \<Rightarrow> string \<Rightarrow> string \<Rightarrow> string \<Rightarrow> string \<Rightarrow> bool"
where
  "well_formed ws dots t s d c og =
     (list_all (\<lambda>i. list_all is_space (ws i)) [0, 1, 2, 3, 4, 5, 6, 7, 8, 9, 10, 11] \<and>
      list_all (\<lambda>i. dots i \<noteq> CHR 0x0A) [0, 1, 2] \<and>
      dquote \<notin> set t \<and> dquote \<notin> set s \<and> dquote \<notin> set og \<and>
      d \<noteq> [] \<and> list_all is_word d \<and> c \<noteq> [] \<and> list_all is_word c)"

definition lits :: "string \<Rightarrow> (atom \<times> string) list" where
  "lits s = map (\<lambda>c. (Chr c, [c])) s"

definition block_segments ::
  "(nat \<Rightarrow> string) \<Rightarrow> (nat \<Rightarrow> char) \<Rightarrow> string \<Rightarrow> string \<Rightarrow> string \<Rightarrow> string \<Rightarrow> string \<Rightarrow>
   (atom \<times> string) list"
where
  "block_segments ws dots t s d c og =
     lits ''Quote'' @ [(Star Space, ws 0), (Chr CHR ''{'', ''{''), (Star Space, ws 1)] @
     lits ''text:'' @ [(Star Space, ws 2), (Chr dquote, [dquote]), (GroupStar (NotChr dquote), t),
       (Chr dquote, [dquote]), (Dot, [dots 0])] @
       lits ''to_string(),'' @ [(Star Space, ws 3)] @
     lits ''source:'' @ [(Star Space, ws 4), (Chr dquote, [dquote]), (GroupStar (NotChr dquote), s),
       (Chr dquote, [dquote]), (Dot, [dots 1])] @
       lits ''to_string(),'' @ [(Star Space, ws 5)] @
     lits ''difficulty:'' @ [(Star Space, ws 6)] @ lits ''QuoteDifficulty::'' @
       [(GroupPlus Word, d), (Chr CHR '','', '',''), (Star Space, ws 7)] @
     lits ''category:'' @ [(Star Space, ws 8)] @ lits ''QuoteCategory::'' @
       [(GroupPlus Word, c), (Chr CHR '','', '',''), (Star Space, ws 9)] @
     lits ''origin:'' @ [(Star Space, ws 10), (Chr dquote, [dquote]), (GroupStar (NotChr dquote), og),
       (Chr dquote, [dquote]), (Dot, [dots 2])] @
       lits ''to_string(),'' @ [(Star Space, ws 11)] @
     [(Chr CHR ''}'', ''}'')]"

lemma block_segments_pattern:
  "map fst (block_segments ws dots t s d c og) = quote_pattern"
  by (simp add: block_segments_def quote_pattern_def lits_def lit_def)

lemma block_segments_text:
  "concat (map snd (block_segments ws dots t s d c og)) = block ws dots t s d c og"
  by (simp add: block_segments_def block_def lits_def)

lemma block_segments_captures:
  "captures (block_segments ws dots t s d c og) = [t, s, d, c, og]"
  by (simp add: block_segments_def lits_def)

lemma list_all_not_dquote:
  "dquote \<notin> set t \<Longrightarrow> list_all (in_cls (NotChr dquote)) t"
  by (induction t) auto

lemma list_all_in_cls [simp]:
  "list_all (in_cls Space) w = list_all is_space w"
  "list_all (in_cls Word) w = list_all is_word w"
  by (induction w) auto

lemma pattern_delimiters:
  "\<not> is_space CHR ''{''" "\<not> is_space CHR ''}''" "\<not> is_space CHR ''t''"
  "\<not> is_space CHR ''s''" "\<not> is_space CHR ''d''" "\<not> is_space CHR ''c''"
  "\<not> is_space CHR ''o''" "\<not> is_space CHR ''Q''" "\<not> is_space dquote"
  "\<not> is_word CHR '',''"
  by (simp_all add: is_space_def is_word_def dquote_def)

lemma block_segments_fits:
  assumes "well_formed ws dots t s d c og"
  shows "fits (block_segments ws dots t s d c og) rest"
  using assms
  by (simp add: well_formed_def block_segments_def lits_def list_all_not_dquote
      pattern_delimiters)

lemma rmatch_block:
  assumes "well_formed ws dots t s d c og"
  shows "rmatch quote_pattern (block ws dots t s d c og @ rest) = Some ([t, s, d, c, og], rest)"
  using rmatch_fits [OF block_segments_fits [OF assms, of rest]]
  by (simp only: block_segments_pattern block_segments_text block_segments_captures)

lemma findall_skip:
  "\<forall>i < length pre. rmatch quote_pattern (drop i (pre @ s)) = None \<Longrightarrow>
   findall (pre @ s) = findall s"
proof (induction pre)
  case Nil
  show ?case by simp
next
  case (Cons x pre)
  from Cons.prems have 0: "rmatch quote_pattern (x # pre @ s) = None" by force
  have "\<forall>i < length pre. rmatch quote_pattern (drop i (pre @ s)) = None"
  proof (intro allI impI)
    fix i assume "i < length pre"
    then have "Suc i < length (x # pre)" by simp
    with Cons.prems have "rmatch quote_pattern (drop (Suc i) ((x # pre) @ s)) = None" by blast
    then show "rmatch quote_pattern (drop i (pre @ s)) = None" by simp
  qed
  from Cons.IH [OF this] 0 show ?case by simp
qed

lemma findall_match:
  assumes "rmatch quote_pattern s = Some (gs, rest)"
  shows "findall s = gs # findall rest"
proof (cases s)
  case Nil
  with rmatch_quote_pattern_shorter [OF assms] show ?thesis by simp
next
  case (Cons x xs)
  with assms show ?thesis by simp
qed

lemma sample_block_eq:
  "sample_block t c = block (\<lambda>i. []) (\<lambda>i. CHR ''.'') t ''s'' ''Easy'' c ''o''"
  by (simp add: sample_block_def block_def)

lemma sample_block_well_formed:
  "dquote \<notin> set t \<Longrightarrow> c \<noteq> [] \<Longrightarrow> list_all is_word c \<Longrightarrow>
   well_formed (\<lambda>i. []) (\<lambda>i. CHR ''.'') t ''s'' ''Easy'' c ''o''"
  by (simp add: well_formed_def dquote_def is_word_def)

lemma findall_sample_block:
  assumes "dquote \<notin> set t" and "c \<noteq> []" and "list_all is_word c"
  shows "findall (sample_block t c @ rest) = [t, ''s'', ''Easy'', c, ''o''] # findall rest"
  unfolding sample_block_eq
  by (rule findall_match [OF rmatch_block [OF sample_block_well_formed [OF assms]]])

lemma sample_fields:
  "dquote \<notin> set ''A''" "dquote \<notin> set ''B''" "dquote \<notin> set ''P''"
  "list_all is_word ''Humor''" "list_all is_word ''Proverbs''" "list_all is_word ''Foo''"
  by (simp_all add: dquote_def is_word_def)

text \<open>
  An input in which two texts of the fixed shape overlap: the second begins inside the
  text field of the first and ends after it.
\<close>

definition overlap_tail :: string where
  "overlap_tail =
     ''difficulty:QuoteDifficulty::E,category:QuoteCategory::Humor,origin:'' @ [dquote]"

definition overlap_inner :: string where
  "overlap_inner =
     ''Quote{text:'' @ [dquote] @ ''.to_string(),source:'' @ [dquote] @
     ''Xto_string(),source:'' @ [dquote] @ ''.to_string(),'' @ overlap_tail @
     ''Xto_string(),'' @ overlap_tail @ ''.to_string(),}'' @ [dquote] @ ''.to_string(),}''"

definition overlap_input :: string where
  "overlap_input = ''Quote{text:'' @ [dquote] @ overlap_inner"

lemma overlap_outer_is_block:
  "overlap_input =
     block (\<lambda>i. []) (\<lambda>i. CHR ''.'') ''Quote{text:'' ''Xto_string(),source:'' ''E'' ''Humor''
       ''Xto_string(),difficulty:QuoteDifficulty::E,category:QuoteCategory::Humor,origin:''
     @ [dquote] @ ''.to_string(),}''"
  by (simp add: overlap_input_def overlap_inner_def overlap_tail_def block_def)

lemma overlap_inner_is_block:
  "overlap_inner =
     block (\<lambda>i. []) (\<lambda>i. if i = 2 then CHR ''.'' else CHR ''X'')
       ''.to_string(),source:''
       ''.to_string(),difficulty:QuoteDifficulty::E,category:QuoteCategory::Humor,origin:''
       ''E'' ''Humor'' ''.to_string(),}''"
  by (simp add: overlap_inner_def overlap_tail_def block_def)

lemma overlap_rest_no_match:
  "findall ([dquote] @ ''.to_string(),}'') = []"
  by (simp add: dquote_def quote_pattern_def lit_def)

lemma merged_valid:
  "old \<noteq> Some Invalid_json \<Longrightarrow> merged N old \<noteq> Some Invalid_json"
  by (cases "(N, old)" rule: merged.cases) auto

lemma merged_distinct:
  assumes "distinct (map quote_text N)"
    and "\<forall>E. old = Some (Quotes E) \<longrightarrow> distinct (map quote_text E)"
    and "merged N old = Some (Quotes A)"
  shows "distinct (map quote_text A)"
proof (cases "(N, old)" rule: merged.cases)
  case (1 old')
  with assms show ?thesis by simp
next
  case (2 q qs)
  with assms show ?thesis by auto
next
  case (3 q qs E)
  then have A: "A = E @ filter (\<lambda>n. quote_text n \<notin> set (map quote_text E)) N"
    using assms(3) by simp
  have "distinct (map quote_text (filter (\<lambda>n. quote_text n \<notin> set (map quote_text E)) N))"
    using assms(1) by (simp add: distinct_map_filter)
  moreover have "distinct (map quote_text E)" using assms(2) 3 by simp
  moreover have "set (map quote_text E) \<inter>
      set (map quote_text (filter (\<lambda>n. quote_text n \<notin> set (map quote_text E)) N)) = {}"
  proof -
    have False if 1: "t \<in> set (map quote_text E)"
      and 2: "t \<in> set (map quote_text (filter (\<lambda>n. quote_text n \<notin> set (map quote_text E)) N))" for t
    proof -
      from 2 have "t \<notin> set (map quote_text E)"
        by (induction N) (auto simp: image_iff split: if_splits)
      with 1 show False by simp
    qed
    then show ?thesis by blast
  qed
  ultimately show ?thesis unfolding A by (simp only: map_append distinct_append)
next
  case (4 q qs)
  with assms show ?thesis by simp
qed

text \<open>Every output file is readable and holds no text twice.\<close>

definition texts_unique :: "(string \<rightharpoonup> stored) \<Rightarrow> bool" where
  "texts_unique files =
     (\<forall>p. files p \<noteq> Some Invalid_json \<and>
          (\<forall>E. files p = Some (Quotes E) \<longrightarrow> distinct (map quote_text E)))"

lemma run_texts_unique:
  assumes "texts_unique files"
    and "\<forall>(c, f) \<in> set categories. \<forall>qs. extracted srcs c = Some qs \<longrightarrow> distinct (map quote_text qs)"
  shows "texts_unique (run srcs files)"
proof (cases "srcs ''src/quotes.rs''")
  case None
  with assms(1) show ?thesis by (simp add: run_missing_source)
next
  case (Some content)
  have valid: "\<forall>(c, f) \<in> set categories. files (category_path f) \<noteq> Some Invalid_json"
    using assms(1) by (simp add: texts_unique_def)
  have "run srcs files p \<noteq> Some Invalid_json \<and>
          (\<forall>E. run srcs files p = Some (Quotes E) \<longrightarrow> distinct (map quote_text E))" for p
  proof (cases "p \<in> category_path ` snd ` set categories")
    case False
    with assms(1) show ?thesis by (simp add: run_other_file texts_unique_def)
  next
    case True
    then obtain c f where cf: "(c, f) \<in> set categories" and p: "p = category_path f"
      by auto
    have r: "run srcs files p = merged (batch content c) (files p)"
      unfolding p using run_file [of srcs content c f files] Some cf valid by simp
    have "extracted srcs c = Some (batch content c)"
      using extracted_eq [of srcs content] Some cf by force
    with assms(2) cf have d: "distinct (map quote_text (batch content c))" by blast
    have old: "\<forall>E. files p = Some (Quotes E) \<longrightarrow> distinct (map quote_text E)"
      and ok: "files p \<noteq> Some Invalid_json"
      using assms(1) by (simp_all add: texts_unique_def)
    show ?thesis
      using merged_valid [OF ok, of "batch content c"] merged_distinct [OF d old] r by auto
  qed
  then show ?thesis by (simp add: texts_unique_def)
qed

lemma runs_texts_unique:
  assumes "texts_unique files"
    and "\<forall>srcs \<in> set history. \<forall>(c, f) \<in> set categories. \<forall>qs.
           extracted srcs c = Some qs \<longrightarrow> distinct (map quote_text qs)"
  shows "texts_unique (runs history files)"
  using assms
proof (induction history arbitrary: files)
  case Nil
  then show ?case by simp
next
  case (Cons srcs history)
  have "texts_unique (run srcs files)"
    using run_texts_unique [of files srcs] Cons.prems by simp
  with Cons show ?case by simp
qed

lemma run_valid:
  assumes "\<forall>p. files p \<noteq> Some Invalid_json"
  shows "run srcs files p \<noteq> Some Invalid_json"
proof (cases "srcs ''src/quotes.rs''")
  case None
  with assms show ?thesis by (simp add: run_missing_source)
next
  case (Some content)
  show ?thesis
  proof (cases "p \<in> category_path ` snd ` set categories")
    case False
    with assms show ?thesis by (simp add: run_other_file)
  next
    case True
    then obtain c f where cf: "(c, f) \<in> set categories" and p: "p = category_path f"
      by auto
    have "run srcs files p = merged (batch content c) (files p)"
      unfolding p using run_file [of srcs content c f files] Some cf assms by simp
    with merged_valid [of "files p" "batch content c"] assms show ?thesis by simp
  qed
qed

lemma findall_one_sample_block:
  assumes "dquote \<notin> set t" and "c \<noteq> []" and "list_all is_word c"
  shows "findall (sample_block t c) = [[t, ''s'', ''Easy'', c, ''o'']]"
  using findall_sample_block [OF assms, of "[]"] by simp

lemma findall_AB:
  "findall (sample_block ''A'' ''Humor'' @ sample_block ''B'' ''Humor'') =
     [[''A'', ''s'', ''Easy'', ''Humor'', ''o''], [''B'', ''s'', ''Easy'', ''Humor'', ''o'']]"
proof -
  have 1: "findall (sample_block ''B'' ''Humor'') = [[''B'', ''s'', ''Easy'', ''Humor'', ''o'']]"
    by (rule findall_one_sample_block) (simp_all add: dquote_def is_word_def)
  have 2: "findall (sample_block ''A'' ''Humor'' @ sample_block ''B'' ''Humor'') =
      [''A'', ''s'', ''Easy'', ''Humor'', ''o''] # findall (sample_block ''B'' ''Humor'')"
    by (rule findall_sample_block) (simp_all add: dquote_def is_word_def)
  from 1 2 show ?thesis by simp
qed

lemma batch_AB:
  "batch (sample_block ''A'' ''Humor'' @ sample_block ''B'' ''Humor'') c =
     (if c = ''Humor'' then [sample_quote ''A'' ''Humor'', sample_quote ''B'' ''Humor''] else [])"
  by (simp add: batch_def findall_AB sample_quote_def)


text \<open>The records of an existing file; none when there is no file.\<close>

fun existing_records :: "stored option \<Rightarrow> quote list" where
  "existing_records (Some (Quotes E)) = E"
| "existing_records old = []"




lemma known_names:
  "fst ` set categories =
     {''Proverbs'', ''TongueTwisters'', ''Literature'', ''Programming'', ''Humor'',
      ''Multilingual'', ''Typewriters''}"
  by (simp add: categories_def)

lemma match_quote_fields:
  "length m = 5 \<Longrightarrow>
   [quote_text (match_quote m), quote_source (match_quote m), quote_difficulty (match_quote m),
    quote_category (match_quote m), quote_origin (match_quote m)] = m"
  using length_5 [of m] by auto

lemma batch_member:
  assumes "q \<in> set (batch content c)"
  shows "quote_category q = c"
    and "[quote_text q, quote_source q, quote_difficulty q, quote_category q, quote_origin q]
           \<in> set (findall content)"
proof -
  from assms obtain m where m: "m \<in> set (findall content)" and q: "q = match_quote m"
    and c: "quote_category q = c"
    by (auto simp: batch_def)
  from c show "quote_category q = c" .
  from match_quote_fields [OF findall_length [OF m]] m q
  show "[quote_text q, quote_source q, quote_difficulty q, quote_category q, quote_origin q]
           \<in> set (findall content)"
    by simp
qed

lemma filter_merged:
  assumes "\<forall>q \<in> set N. \<not> P q"
  shows "filter P (existing_records (merged N old)) = filter P (existing_records old)"
proof (cases "(N, old)" rule: merged.cases)
  case (2 q qs)
  with assms show ?thesis by (simp add: filter_empty_conv)
next
  case (3 q qs E)
  have "filter P (filter (\<lambda>n. quote_text n \<notin> set (map quote_text E)) N) = []"
    using assms by (simp add: filter_empty_conv)
  with 3 show ?thesis by simp
qed simp_all

lemma run_file_final:
  assumes "srcs ''src/quotes.rs'' = Some content" and "(c, f) \<in> set categories"
  shows "run srcs files (category_path f) = files (category_path f) \<or>
         run srcs files (category_path f) = merged (batch content c) (files (category_path f))"
proof -
  from run_with_source [of srcs content files] assms(1)
  obtain st1 where j: "json_files st1 = files"
    and q: "quotes_by_category st1 =
             (\<lambda>c. if c \<in> fst ` set categories then Some (batch content c) else None)"
    and r: "run srcs files = json_files (final_state (save_loop categories st1))"
    by blast
  have "quotes_by_category st1 c = Some (batch content c)"
    using q assms(2) by force
  from save_loop_file_final [OF distinct_categories(1) assms(2) this]
  show ?thesis using r j by simp
qed

lemma run_adds_no_unknown:
  "filter (\<lambda>q. quote_category q \<notin> fst ` set categories) (existing_records (run srcs files p))
     = filter (\<lambda>q. quote_category q \<notin> fst ` set categories) (existing_records (files p))"
proof (cases "srcs ''src/quotes.rs''")
  case None
  then show ?thesis by (simp add: run_missing_source)
next
  case (Some content)
  show ?thesis
  proof (cases "p \<in> category_path ` snd ` set categories")
    case False
    then show ?thesis by (simp add: run_other_file)
  next
    case True
    then obtain c f where cf: "(c, f) \<in> set categories" and p: "p = category_path f"
      by auto
    have "\<forall>q \<in> set (batch content c). \<not> quote_category q \<notin> fst ` set categories"
      using batch_member(1) [of _ content c] cf by force
    from filter_merged [OF this, of "files p"] run_file_final [of srcs content c f files] Some cf
    show ?thesis unfolding p by auto
  qed
qed

lemma findall_AFoo:
  "findall (sample_block ''A'' ''Humor'' @ sample_block ''B'' ''Foo'') =
     [[''A'', ''s'', ''Easy'', ''Humor'', ''o''], [''B'', ''s'', ''Easy'', ''Foo'', ''o'']]"
proof -
  have 1: "findall (sample_block ''B'' ''Foo'') = [[''B'', ''s'', ''Easy'', ''Foo'', ''o'']]"
    by (rule findall_one_sample_block) (simp_all add: dquote_def is_word_def)
  have 2: "findall (sample_block ''A'' ''Humor'' @ sample_block ''B'' ''Foo'') =
      [''A'', ''s'', ''Easy'', ''Humor'', ''o''] # findall (sample_block ''B'' ''Foo'')"
    by (rule findall_sample_block) (simp_all add: dquote_def is_word_def)
  from 1 2 show ?thesis by simp
qed

lemma extract_loop_writes:
  "writes (final_state (extract_loop ms st)) = writes st"
proof (induction ms arbitrary: st)
  case Nil
  show ?case by simp
next
  case (Cons m ms)
  show ?case
    by (auto simp: extract_loop.simps(2) Let_def Cons.IH split: list.splits option.splits)
qed

lemma findall_none:
  assumes "\<forall>i \<le> length s. rmatch quote_pattern (drop i s) = None"
  shows "findall s = []"
proof -
  have "\<forall>i < length s. rmatch quote_pattern (drop i (s @ [])) = None"
    using assms by simp
  from findall_skip [OF this] show ?thesis by simp
qed

lemma no_Q_no_match:
  assumes "CHR ''Q'' \<notin> set s"
  shows "rmatch quote_pattern (drop i s) = None"
proof -
  obtain p where p: "quote_pattern = Chr CHR ''Q'' # p"
    using quote_pattern_Cons by blast
  show ?thesis
  proof (cases "drop i s")
    case Nil
    then show ?thesis by (simp add: p)
  next
    case (Cons x xs)
    then have "x \<in> set (drop i s)" by simp
    then have "x \<in> set s" by (rule in_set_dropD)
    with assms have "x \<noteq> CHR ''Q''" by auto
    with Cons show ?thesis by (simp add: p)
  qed
qed





section \<open>The claims about the merge-writer\<close>







text \<open>
  Claim C7. A category that yields no new record, because nothing was extracted for it or
  because the text of every extracted record already occurs in its file, has its file not
  written by \<open>save_quotes_to_json\<close>, however the run ends: the file is not opened for
  writing (the write log has no new entry for its path), an absent file stays absent and
  an existing file keeps its content.
\<close>

theorem C7_no_new_records_no_write:
  assumes "(category, filename) \<in> set categories"
    and "quotes_by_category st category = Some N"
    and "N = [] \<or> (\<exists>E. json_files st (category_path filename) = Some (Quotes E) \<and>
           (\<forall>q \<in> set N. quote_text q \<in> set (map quote_text E)))"
  shows "count_list (writes (final_state (save_quotes_to_json st))) (category_path filename)
           = count_list (writes st) (category_path filename) \<and>
         json_files (final_state (save_quotes_to_json st)) (category_path filename)
           = json_files st (category_path filename)"
proof -
  have "merged N (json_files st (category_path filename)) = json_files st (category_path filename)"
  proof (cases N)
    case Nil
    then show ?thesis by simp
  next
    case (Cons q qs)
    with assms(3) obtain E where E: "json_files st (category_path filename) = Some (Quotes E)"
      and seen: "\<forall>q \<in> set N. quote_text q \<in> set (map quote_text E)"
      by auto
    from seen have "filter (\<lambda>n. quote_text n \<notin> set (map quote_text E)) N = []"
      by (simp add: filter_empty_conv)
    with E Cons show ?thesis by simp
  qed
  with save_loop_file_final [OF distinct_categories(1) assms(1,2)]
  have "json_files (final_state (save_quotes_to_json st)) (category_path filename)
           = json_files st (category_path filename)"
    by (auto simp: save_quotes_to_json_def)
  moreover have "count_list (writes (final_state (save_quotes_to_json st))) (category_path filename)
           = count_list (writes st) (category_path filename)"
    unfolding save_quotes_to_json_def
    by (rule save_loop_no_write [OF distinct_categories(1) assms])
  ultimately show ?thesis by simp
qed

theorem C7_witness:
  "count_list (writes (final_state (save_quotes_to_json (humor_state [] None))))
       (category_path ''humor.json'') = 0 \<and>
   json_files (final_state (save_quotes_to_json (humor_state [] None)))
       (category_path ''humor.json'') = None \<and>
   count_list (writes (final_state (save_quotes_to_json
       (humor_state [sample_quote ''A'' ''Humor''] (Some (Quotes [sample_quote ''A'' ''Humor'']))))))
       (category_path ''humor.json'') = 0 \<and>
   json_files (final_state (save_quotes_to_json
       (humor_state [sample_quote ''A'' ''Humor''] (Some (Quotes [sample_quote ''A'' ''Humor''])))))
       (category_path ''humor.json'') = Some (Quotes [sample_quote ''A'' ''Humor''])"
proof -
  have 1: "[] = [] \<or> (\<exists>E. json_files (humor_state [] None) (category_path ''humor.json'') = Some (Quotes E) \<and>
           (\<forall>q \<in> set []. quote_text q \<in> set (map quote_text E)))"
    by simp
  have 2: "[sample_quote ''A'' ''Humor''] = [] \<or>
      (\<exists>E. json_files (humor_state [sample_quote ''A'' ''Humor''] (Some (Quotes [sample_quote ''A'' ''Humor''])))
              (category_path ''humor.json'') = Some (Quotes E) \<and>
           (\<forall>q \<in> set [sample_quote ''A'' ''Humor'']. quote_text q \<in> set (map quote_text E)))"
    by (simp add: humor_state_fields)
  from C7_no_new_records_no_write [OF humor_item humor_state_fields(1) 1]
       C7_no_new_records_no_write [OF humor_item humor_state_fields(1) 2]
  show ?thesis by (simp add: humor_state_fields)
qed

section \<open>The claims about whole runs\<close>

text \<open>
  Claim C2. For every source input and every content of the output directory, running
  the whole script a second time on the same input, on the files the first run left,
  changes no output file: the files after the second run are the files after the first.
\<close>

theorem C2_second_run_changes_no_file:
  "run srcs (run srcs files) = run srcs files"
proof (cases "srcs ''src/quotes.rs''")
  case None
  then show ?thesis by (simp add: run_missing_source)
next
  case (Some content)
  from run_with_source [of srcs content files] Some
  obtain st1 where j1: "json_files st1 = files"
    and q1: "quotes_by_category st1 =
             (\<lambda>c. if c \<in> fst ` set categories then Some (batch content c) else None)"
    and r1: "run srcs files = json_files (final_state (save_loop categories st1))"
    by blast
  from run_with_source [of srcs content "run srcs files"] Some
  obtain st2 where j2: "json_files st2 = run srcs files"
    and q2: "quotes_by_category st2 =
             (\<lambda>c. if c \<in> fst ` set categories then Some (batch content c) else None)"
    and r2: "run srcs (run srcs files) = json_files (final_state (save_loop categories st2))"
    by blast
  have "json_files (final_state (save_loop categories st2)) = json_files st2"
  proof (rule save_loop_idem [OF distinct_categories(1)])
    show "quotes_by_category st2 = quotes_by_category st1" using q1 q2 by simp
    show "json_files st2 = json_files (final_state (save_loop categories st1))"
      using j2 r1 by simp
  qed
  with r2 j2 show ?thesis by simp
qed

text \<open>
  Claim C4, as stated, fails: the merge-writer filters the extracted records against the
  texts of the existing file only, and when there is no file it writes the extracted list
  as it is. A source with the same block twice, run once on an empty output directory,
  leaves \<open>humor.json\<close> with the text \<open>A\<close> twice.
\<close>

theorem C4_counterexample:
  "runs [[''src/quotes.rs'' \<mapsto> sample_block ''A'' ''Humor'' @ sample_block ''A'' ''Humor'']]
      Map.empty (category_path ''humor.json'')
     = Some (Quotes [sample_quote ''A'' ''Humor'', sample_quote ''A'' ''Humor'']) \<and>
   \<not> distinct (map quote_text [sample_quote ''A'' ''Humor'', sample_quote ''A'' ''Humor''])"
proof -
  let ?srcs = "[''src/quotes.rs'' \<mapsto> sample_block ''A'' ''Humor'' @ sample_block ''A'' ''Humor'']"
  have "run ?srcs Map.empty (category_path ''humor.json'')
      = merged (batch (sample_block ''A'' ''Humor'' @ sample_block ''A'' ''Humor'') ''Humor'')
          (Map.empty (category_path ''humor.json''))"
    by (rule run_file [OF _ humor_item]) simp_all
  then have "runs [?srcs] Map.empty (category_path ''humor.json'')
      = Some (Quotes [sample_quote ''A'' ''Humor'', sample_quote ''A'' ''Humor''])"
    by (simp add: batch_two)
  then show ?thesis by (simp add: sample_quote_def)
qed

text \<open>
  Claim C4, amended. After any sequence of runs that starts from absent output files, if
  in each run the records extracted for each category have pairwise distinct texts, then
  every output file holds a list of records with pairwise distinct texts.
\<close>

theorem C4_texts_stay_unique_when_each_batch_is:
  assumes "\<forall>srcs \<in> set history. \<forall>(c, f) \<in> set categories. \<forall>qs.
           extracted srcs c = Some qs \<longrightarrow> distinct (map quote_text qs)"
    and "runs history Map.empty p = Some content"
  shows "\<exists>E. content = Quotes E \<and> distinct (map quote_text E)"
proof -
  have "texts_unique Map.empty" by (simp add: texts_unique_def)
  from runs_texts_unique [OF this assms(1)] assms(2)
  show ?thesis by (cases content) (auto simp: texts_unique_def)
qed

theorem C4_witness:
  "runs [[''src/quotes.rs'' \<mapsto> sample_block ''A'' ''Humor'' @ sample_block ''B'' ''Humor''],
         [''src/quotes.rs'' \<mapsto> sample_block ''A'' ''Humor'' @ sample_block ''B'' ''Humor'']]
      Map.empty (category_path ''humor.json'')
     = Some (Quotes [sample_quote ''A'' ''Humor'', sample_quote ''B'' ''Humor'']) \<and>
   distinct (map quote_text [sample_quote ''A'' ''Humor'', sample_quote ''B'' ''Humor''])"
proof -
  let ?content = "sample_block ''A'' ''Humor'' @ sample_block ''B'' ''Humor''"
  let ?srcs = "[''src/quotes.rs'' \<mapsto> ?content]"
  let ?p = "category_path ''humor.json''"
  let ?qs = "[sample_quote ''A'' ''Humor'', sample_quote ''B'' ''Humor'']"
  have r1: "run ?srcs Map.empty ?p = Some (Quotes ?qs)"
    using run_file [of ?srcs ?content "''Humor''" "''humor.json''" Map.empty] humor_item
    by (simp add: batch_AB)
  have v: "\<forall>(c, f) \<in> set categories. run ?srcs Map.empty (category_path f) \<noteq> Some Invalid_json"
    using run_valid [of Map.empty ?srcs] by simp
  have r2: "run ?srcs (run ?srcs Map.empty) ?p = Some (Quotes ?qs)"
    using run_file [of ?srcs ?content "''Humor''" "''humor.json''" "run ?srcs Map.empty"] humor_item v
    by (simp add: batch_AB r1 sample_quote_def)
  have rs: "runs [?srcs, ?srcs] Map.empty ?p = Some (Quotes ?qs)"
    using r2 by simp
  have h: "\<forall>srcs \<in> set [?srcs, ?srcs]. \<forall>(c, f) \<in> set categories. \<forall>qs.
           extracted srcs c = Some qs \<longrightarrow> distinct (map quote_text qs)"
    using extracted_eq [of ?srcs ?content]
    by (auto simp: batch_AB sample_quote_def split: if_splits)
  from C4_texts_stay_unique_when_each_batch_is [OF h rs] rs
  show ?thesis by simp
qed




section \<open>The claims about the extractor\<close>

text \<open>
  Claim C3, as stated, fails: it promises one record for every part of the input that
  matches the fixed shape, but \<open>findall\<close> returns the matches of one scan from left to
  right, which do not overlap. In \<open>overlap_input\<close> the pattern matches at the start, and it
  matches again at \<open>overlap_inner\<close>, which begins inside the text field of the first match
  and ends after it; the scan yields the first match only, so the second matching text
  has no record.
\<close>

theorem C3_counterexample:
  "overlap_input = ''Quote{text:'' @ [dquote] @ overlap_inner \<and>
   rmatch quote_pattern overlap_input =
     Some ([''Quote{text:'', ''Xto_string(),source:'', ''E'', ''Humor'',
            ''Xto_string(),difficulty:QuoteDifficulty::E,category:QuoteCategory::Humor,origin:''],
           [dquote] @ ''.to_string(),}'') \<and>
   rmatch quote_pattern overlap_inner =
     Some ([''.to_string(),source:'',
            ''.to_string(),difficulty:QuoteDifficulty::E,category:QuoteCategory::Humor,origin:'',
            ''E'', ''Humor'', ''.to_string(),}''], []) \<and>
   findall overlap_input =
     [[''Quote{text:'', ''Xto_string(),source:'', ''E'', ''Humor'',
       ''Xto_string(),difficulty:QuoteDifficulty::E,category:QuoteCategory::Humor,origin:'']]"
proof -
  have w1: "well_formed (\<lambda>i. []) (\<lambda>i. CHR ''.'') ''Quote{text:'' ''Xto_string(),source:'' ''E'' ''Humor''
       ''Xto_string(),difficulty:QuoteDifficulty::E,category:QuoteCategory::Humor,origin:''"
    by (simp add: well_formed_def dquote_def is_word_def)
  have w2: "well_formed (\<lambda>i. []) (\<lambda>i. if i = 2 then CHR ''.'' else CHR ''X'')
       ''.to_string(),source:''
       ''.to_string(),difficulty:QuoteDifficulty::E,category:QuoteCategory::Humor,origin:''
       ''E'' ''Humor'' ''.to_string(),}''"
    by (simp add: well_formed_def dquote_def is_word_def)
  have m1: "rmatch quote_pattern overlap_input =
     Some ([''Quote{text:'', ''Xto_string(),source:'', ''E'', ''Humor'',
            ''Xto_string(),difficulty:QuoteDifficulty::E,category:QuoteCategory::Humor,origin:''],
           [dquote] @ ''.to_string(),}'')"
    unfolding overlap_outer_is_block by (rule rmatch_block [OF w1])
  have m2: "rmatch quote_pattern overlap_inner =
     Some ([''.to_string(),source:'',
            ''.to_string(),difficulty:QuoteDifficulty::E,category:QuoteCategory::Humor,origin:'',
            ''E'', ''Humor'', ''.to_string(),}''], [])"
    using rmatch_block [OF w2, of "[]"] by (simp add: overlap_inner_is_block)
  have f: "findall overlap_input =
     [[''Quote{text:'', ''Xto_string(),source:'', ''E'', ''Humor'',
       ''Xto_string(),difficulty:QuoteDifficulty::E,category:QuoteCategory::Humor,origin:'']]"
    using findall_match [OF m1] overlap_rest_no_match by simp
  from m1 m2 f show ?thesis by (simp add: overlap_input_def)
qed

text \<open>
  Claim C3, amended. For every input text and every block of the fixed shape in it that
  the scan reaches (no match of the pattern starts in the text before the block, counted
  from where the scan stands), the scan yields exactly one match for the block, whose five
  groups are the five fields of the block, and goes on after the block; from that match
  the loop builds the record with these five fields and appends it to the list of its
  category when that category is known.
\<close>

theorem C3_one_record_for_each_block_the_scan_reaches:
  assumes "well_formed ws dots t s d c og"
    and "\<forall>i < length pre. rmatch quote_pattern (drop i (pre @ block ws dots t s d c og @ post)) = None"
  shows "findall (pre @ block ws dots t s d c og @ post) = [t, s, d, c, og] # findall post \<and>
         extract_loop (findall (pre @ block ws dots t s d c og @ post)) st =
           (case quotes_by_category st c of
              Some qs \<Rightarrow> extract_loop (findall post)
                (st\<lparr>quotes_by_category := (quotes_by_category st)(c \<mapsto> qs @ [quote_of t s d c og])\<rparr>)
            | None \<Rightarrow> extract_loop (findall post) (print (Unknown_category c) st))"
proof -
  have "findall (pre @ block ws dots t s d c og @ post) = findall (block ws dots t s d c og @ post)"
    by (rule findall_skip [OF assms(2)])
  also have "\<dots> = [t, s, d, c, og] # findall post"
    by (rule findall_match [OF rmatch_block [OF assms(1)]])
  finally show ?thesis by (simp add: extract_loop_step)
qed

theorem C3_witness:
  "findall (''zz '' @ block (\<lambda>i. '' '') (\<lambda>i. CHR ''.'') ''a b'' ''me'' ''Easy'' ''Humor'' ''here'' @ '' tail'')
     = [[''a b'', ''me'', ''Easy'', ''Humor'', ''here'']]"
proof -
  have w: "well_formed (\<lambda>i. '' '') (\<lambda>i. CHR ''.'') ''a b'' ''me'' ''Easy'' ''Humor'' ''here''"
    by (simp add: well_formed_def dquote_def is_word_def is_space_def)
  have n: "\<forall>i < length ''zz ''. rmatch quote_pattern
      (drop i (''zz '' @ block (\<lambda>i. '' '') (\<lambda>i. CHR ''.'') ''a b'' ''me'' ''Easy'' ''Humor'' ''here'' @ '' tail'')) = None"
  proof (intro allI impI)
    fix i :: nat
    assume "i < length ''zz ''"
    then consider "i = 0" | "i = Suc 0" | "i = Suc (Suc 0)"
      by force
    then show "rmatch quote_pattern
      (drop i (''zz '' @ block (\<lambda>i. '' '') (\<lambda>i. CHR ''.'') ''a b'' ''me'' ''Easy'' ''Humor'' ''here'' @ '' tail'')) = None"
      by cases (simp_all add: quote_pattern_def lit_def)
  qed
  have e: "findall '' tail'' = []"
    by (simp add: quote_pattern_def lit_def)
  from C3_one_record_for_each_block_the_scan_reaches [OF w n] e
  show ?thesis by simp
qed

text \<open>
  Claim C5. A record whose category label is none of the seven known names is excluded
  from every output file: a run adds no record with such a label to any file (the
  records with such a label that a file holds after the run are those it held before; a
  file the script creates holds none). The drop is not fatal and produces only a printed
  diagnostic: the extractor returns normally, it prints one \<open>Unknown category\<close> line for
  each such record after the two lines of the scan, and the lists of
  \<open>quotes_by_category\<close>, from which alone the files are written, hold only records of
  their own, known category.
\<close>

theorem C5_unknown_category_is_dropped:
  "filter (\<lambda>q. quote_category q \<notin> {''Proverbs'', ''TongueTwisters'', ''Literature'',
              ''Programming'', ''Humor'', ''Multilingual'', ''Typewriters''})
       (existing_records (run srcs files p))
     = filter (\<lambda>q. quote_category q \<notin> {''Proverbs'', ''TongueTwisters'', ''Literature'',
              ''Programming'', ''Humor'', ''Multilingual'', ''Typewriters''})
       (existing_records (files p)) \<and>
   (srcs ''src/quotes.rs'' = Some content \<longrightarrow>
    (\<exists>st1. extract_quotes_from_file ''src/quotes.rs'' (initial_state srcs files) = Inr st1 \<and>
       stdout st1 = [Parsing ''src/quotes.rs'', Found (length (findall content))] @
         map Unknown_category
           (filter (\<lambda>c. c \<notin> {''Proverbs'', ''TongueTwisters'', ''Literature'',
                      ''Programming'', ''Humor'', ''Multilingual'', ''Typewriters''})
              (map quote_category (map match_quote (findall content)))) \<and>
       (\<forall>c qs. quotes_by_category st1 c = Some qs \<longrightarrow>
          c \<in> {''Proverbs'', ''TongueTwisters'', ''Literature'',
                ''Programming'', ''Humor'', ''Multilingual'', ''Typewriters''} \<and>
          (\<forall>q \<in> set qs. quote_category q = c))))"
proof (intro conjI impI)
  show "filter (\<lambda>q. quote_category q \<notin> {''Proverbs'', ''TongueTwisters'', ''Literature'',
              ''Programming'', ''Humor'', ''Multilingual'', ''Typewriters''})
       (existing_records (run srcs files p))
     = filter (\<lambda>q. quote_category q \<notin> {''Proverbs'', ''TongueTwisters'', ''Literature'',
              ''Programming'', ''Humor'', ''Multilingual'', ''Typewriters''})
       (existing_records (files p))"
    using run_adds_no_unknown [of srcs files p] unfolding known_names .
next
  assume src: "srcs ''src/quotes.rs'' = Some content"
  have "source_files (initial_state srcs files) ''src/quotes.rs'' = Some content"
    using src by simp
  from extract_quotes_from_file_effect [OF this]
  obtain st1 where st1: "extract_quotes_from_file ''src/quotes.rs'' (initial_state srcs files) = Inr st1"
    and q: "\<forall>c. quotes_by_category st1 c =
              map_option (\<lambda>qs. qs @ batch content c) (empty_quotes_by_category c)"
    and out: "stdout st1 = [] @ [Parsing ''src/quotes.rs'', Found (length (findall content))] @
              map Unknown_category
                (filter (\<lambda>c. empty_quotes_by_category c = None)
                   (map quote_category (map match_quote (findall content))))"
    by auto
  have none: "(empty_quotes_by_category c = None) = (c \<notin> {''Proverbs'', ''TongueTwisters'',
      ''Literature'', ''Programming'', ''Humor'', ''Multilingual'', ''Typewriters''})" for c
    unfolding known_names [symmetric] by (simp add: empty_quotes_by_category_eq)
  have buckets: "c \<in> {''Proverbs'', ''TongueTwisters'', ''Literature'',
                ''Programming'', ''Humor'', ''Multilingual'', ''Typewriters''} \<and>
          (\<forall>q \<in> set qs. quote_category q = c)"
    if "quotes_by_category st1 c = Some qs" for c qs
  proof -
    from that q have "empty_quotes_by_category c \<noteq> None" and "qs = batch content c"
      by (auto simp: empty_quotes_by_category_eq split: if_splits)
    with none [of c] batch_member(1) [of _ content c] show ?thesis by auto
  qed
  show "\<exists>st1. extract_quotes_from_file ''src/quotes.rs'' (initial_state srcs files) = Inr st1 \<and>
       stdout st1 = [Parsing ''src/quotes.rs'', Found (length (findall content))] @
         map Unknown_category
           (filter (\<lambda>c. c \<notin> {''Proverbs'', ''TongueTwisters'', ''Literature'',
                      ''Programming'', ''Humor'', ''Multilingual'', ''Typewriters''})
              (map quote_category (map match_quote (findall content)))) \<and>
       (\<forall>c qs. quotes_by_category st1 c = Some qs \<longrightarrow>
          c \<in> {''Proverbs'', ''TongueTwisters'', ''Literature'',
                ''Programming'', ''Humor'', ''Multilingual'', ''Typewriters''} \<and>
          (\<forall>q \<in> set qs. quote_category q = c))"
    using st1 out buckets unfolding none by auto
qed

theorem C5_witness:
  "(\<exists>st1. extract_quotes_from_file ''src/quotes.rs''
        (initial_state [''src/quotes.rs'' \<mapsto> sample_block ''A'' ''Humor'' @ sample_block ''B'' ''Foo'']
           Map.empty) = Inr st1 \<and>
      stdout st1 = [Parsing ''src/quotes.rs'', Found 2, Unknown_category ''Foo'']) \<and>
   filter (\<lambda>q. quote_category q \<notin> {''Proverbs'', ''TongueTwisters'', ''Literature'',
              ''Programming'', ''Humor'', ''Multilingual'', ''Typewriters''})
     (existing_records
        (run [''src/quotes.rs'' \<mapsto> sample_block ''A'' ''Humor'' @ sample_block ''B'' ''Foo'']
           Map.empty (category_path ''humor.json''))) = []"
  using C5_unknown_category_is_dropped
    [of "[''src/quotes.rs'' \<mapsto> sample_block ''A'' ''Humor'' @ sample_block ''B'' ''Foo'']"
        Map.empty "category_path ''humor.json''"
        "sample_block ''A'' ''Humor'' @ sample_block ''B'' ''Foo''"]
  by (auto simp: findall_AFoo)

text \<open>
  Claim C8. For every input text, the text that does not match the pattern contributes
  no record and raises no error: the extractor returns normally; it touches no file and
  opens none for writing; every record it appends to a list of \<open>quotes_by_category\<close> has
  the five groups of a match of the pattern somewhere in the text as its five fields; it
  prints the line of the scan, the count of the matches and, for matched blocks of an
  unknown category, their diagnostics, and nothing about text that is skipped; and on a
  text in which the pattern matches nowhere it only prints the two lines, with the count 0.
\<close>

theorem C8_unmatched_text_is_skipped:
  assumes "source_files st file_path = Some content"
  shows "\<exists>st'. extract_quotes_from_file file_path st = Inr st' \<and>
           json_files st' = json_files st \<and> source_files st' = source_files st \<and>
           writes st' = writes st \<and>
           (\<exists>cs. stdout st' =
              stdout st @ [Parsing file_path, Found (length (findall content))] @
              map Unknown_category cs) \<and>
           (\<forall>c. \<exists>new. quotes_by_category st' c =
                    map_option (\<lambda>qs. qs @ new) (quotes_by_category st c) \<and>
                  (\<forall>q \<in> set new. \<exists>pre post rest. content = pre @ post \<and>
                     rmatch quote_pattern post =
                       Some ([quote_text q, quote_source q, quote_difficulty q,
                              quote_category q, quote_origin q], rest))) \<and>
           ((\<forall>i \<le> length content. rmatch quote_pattern (drop i content) = None) \<longrightarrow>
              st' = print (Found 0) (print (Parsing file_path) st))"
proof -
  from extract_quotes_from_file_effect [OF assms]
  obtain st' where st': "extract_quotes_from_file file_path st = Inr st'"
    and j: "json_files st' = json_files st" and sf: "source_files st' = source_files st"
    and q: "\<forall>c. quotes_by_category st' c =
              map_option (\<lambda>qs. qs @ batch content c) (quotes_by_category st c)"
    and out: "stdout st' = stdout st @ [Parsing file_path, Found (length (findall content))] @
              map Unknown_category
                (filter (\<lambda>c. quotes_by_category st c = None)
                   (map quote_category (map match_quote (findall content))))"
    by blast
  have w: "writes st' = writes st"
    using extract_loop_writes
      [of "findall content" "print (Found (length (findall content))) (print (Parsing file_path) st)"]
      st' assms
    by (simp add: extract_quotes_from_file_def Let_def)
  have from_match: "\<exists>pre post rest. content = pre @ post \<and>
                     rmatch quote_pattern post =
                       Some ([quote_text q, quote_source q, quote_difficulty q,
                              quote_category q, quote_origin q], rest)"
    if "q \<in> set (batch content c)" for q c
    using findall_sound [OF batch_member(2) [OF that]] .
  have buckets: "\<exists>new. quotes_by_category st' c =
                    map_option (\<lambda>qs. qs @ new) (quotes_by_category st c) \<and>
                  (\<forall>q \<in> set new. \<exists>pre post rest. content = pre @ post \<and>
                     rmatch quote_pattern post =
                       Some ([quote_text q, quote_source q, quote_difficulty q,
                              quote_category q, quote_origin q], rest))" for c
  proof (intro exI [of _ "batch content c"] conjI ballI)
    show "quotes_by_category st' c =
        map_option (\<lambda>qs. qs @ batch content c) (quotes_by_category st c)"
      using q by simp
    fix q' assume "q' \<in> set (batch content c)"
    then show "\<exists>pre post rest. content = pre @ post \<and>
                     rmatch quote_pattern post =
                       Some ([quote_text q', quote_source q', quote_difficulty q',
                              quote_category q', quote_origin q'], rest)"
      by (rule from_match)
  qed
  have unmatched: "(\<forall>i \<le> length content. rmatch quote_pattern (drop i content) = None) \<longrightarrow>
              st' = print (Found 0) (print (Parsing file_path) st)"
  proof
    assume h: "\<forall>i \<le> length content. rmatch quote_pattern (drop i content) = None"
    from findall_none [OF h] st' assms
    show "st' = print (Found 0) (print (Parsing file_path) st)"
      by (simp add: extract_quotes_from_file_def Let_def)
  qed
  have outs: "\<exists>cs. stdout st' =
              stdout st @ [Parsing file_path, Found (length (findall content))] @
              map Unknown_category cs"
    by (intro exI) (rule out)
  show ?thesis
  proof (intro exI [of _ st'] conjI)
    show "extract_quotes_from_file file_path st = Inr st'" by (rule st')
    show "json_files st' = json_files st" by (rule j)
    show "source_files st' = source_files st" by (rule sf)
    show "writes st' = writes st" by (rule w)
    show "\<exists>cs. stdout st' =
              stdout st @ [Parsing file_path, Found (length (findall content))] @
              map Unknown_category cs" by (rule outs)
    show "\<forall>c. \<exists>new. quotes_by_category st' c =
                    map_option (\<lambda>qs. qs @ new) (quotes_by_category st c) \<and>
                  (\<forall>q \<in> set new. \<exists>pre post rest. content = pre @ post \<and>
                     rmatch quote_pattern post =
                       Some ([quote_text q, quote_source q, quote_difficulty q,
                              quote_category q, quote_origin q], rest))"
      by (intro allI) (rule buckets)
    show "(\<forall>i \<le> length content. rmatch quote_pattern (drop i content) = None) \<longrightarrow>
              st' = print (Found 0) (print (Parsing file_path) st)"
      by (rule unmatched)
  qed
qed

theorem C8_witness:
  "\<exists>st'. extract_quotes_from_file ''src/quotes.rs''
       (initial_state [''src/quotes.rs'' \<mapsto> ''Quote { text: oops }''] Map.empty) = Inr st' \<and>
     st' = print (Found 0) (print (Parsing ''src/quotes.rs'')
       (initial_state [''src/quotes.rs'' \<mapsto> ''Quote { text: oops }''] Map.empty))"
proof -
  let ?st = "initial_state [''src/quotes.rs'' \<mapsto> ''Quote { text: oops }''] Map.empty"
  have s: "source_files ?st ''src/quotes.rs'' = Some ''Quote { text: oops }''"
    by simp
  have m0: "rmatch quote_pattern ''Quote { text: oops }'' = None"
    by (simp add: quote_pattern_def lit_def is_space_def dquote_def)
  have n: "\<forall>i \<le> length ''Quote { text: oops }''.
      rmatch quote_pattern (drop i ''Quote { text: oops }'') = None"
  proof (intro allI impI)
    fix i :: nat
    show "rmatch quote_pattern (drop i ''Quote { text: oops }'') = None"
    proof (cases i)
      case 0
      with m0 show ?thesis by simp
    next
      case (Suc k)
      have "rmatch quote_pattern (drop k ''uote { text: oops }'') = None"
        by (rule no_Q_no_match) simp
      with Suc show ?thesis by simp
    qed
  qed
  from C8_unmatched_text_is_skipped [OF s]
  obtain st' where a: "extract_quotes_from_file ''src/quotes.rs'' ?st = Inr st'"
    and b: "(\<forall>i \<le> length ''Quote { text: oops }''.
               rmatch quote_pattern (drop i ''Quote { text: oops }'') = None) \<longrightarrow>
            st' = print (Found 0) (print (Parsing ''src/quotes.rs'') ?st)"
    apply (elim exE conjE)
    apply (rule that)
     apply assumption+
    done
  from b n have "st' = print (Found 0) (print (Parsing ''src/quotes.rs'') ?st)"
    by (rule mp)
  with a show ?thesis by (intro exI [of _ st'] conjI)
qed




end
